theory Spec2Isabelle
  imports Complex_Main "HOL-Library.Sublist"
begin

section \<open>Bounding-box geometry (services.py, lines 49-60)\<close>

text \<open>
  A bounding box is the Python 4-tuple \<open>(x, y, w, h)\<close>. The source computes on Python
  numbers; the model uses the reals, over which the specification states its properties.
\<close>

type_synonym bbox = "real \<times> real \<times> real \<times> real"

fun scale_bounding_box :: "bbox \<Rightarrow> real \<Rightarrow> real \<Rightarrow> bbox" where
  "scale_bounding_box (x, y, w, h) scale_x scale_y =
     (x * scale_x, y * scale_y, w * scale_x, h * scale_y)"

text \<open>The second argument \<open>image_size\<close> is accepted and never read, as in the source.\<close>

fun bounding_extent_to_corners :: "bbox \<Rightarrow> 'i \<Rightarrow> bbox" where
  "bounding_extent_to_corners (x, y, width, height) image_size =
     (let left = x;
          upper = y;
          right = x + width;
          lower = y + height
      in (left, upper, right, lower))"

section \<open>The Service worker (services.py, lines 63-96)\<close>

text \<open>
  Exceptions are values. A hook may raise any exception; \<open>ValueError\<close> is what
  \<open>Queue.task_done\<close> raises when it is called more often than \<open>put\<close>, and
  \<open>ZeroDivisionError\<close> is what a division by zero raises.
\<close>

datatype error = ZeroDivisionError | ValueError | AssertionError | OtherError string

text \<open>
  A hook returns the new attributes of the object (\<open>Inr\<close>) or raises (\<open>Inl\<close>); what
  it had already done when it raised stays done, so the raised value carries the state
  reached.
\<close>

type_synonym 's outcome = "(error \<times> 's) + 's"

record ('r, 's) hooks =
  process :: "'r \<Rightarrow> 's \<Rightarrow> 's outcome"
  shutdown :: "'s \<Rightarrow> 's outcome"

text \<open>The hooks of the base class: both bodies are \<open>pass\<close>.\<close>

definition Service_hooks :: "('r, 's) hooks" where
  "Service_hooks = \<lparr> process = (\<lambda>request s. Inr s), shutdown = (\<lambda>s. Inr s) \<rparr>"

text \<open>
  The consumer thread is running its loop, has returned from \<open>_run\<close>, or has died of
  an exception nobody caught.
\<close>

datatype thread_state = Running | Finished | Died error

text \<open>
  The calls of the one thread that owns the service. A request is any Python value, so
  \<open>submit\<close> may be handed \<open>None\<close>: the queue holds \<open>'r option\<close>.
\<close>

datatype 'r call = Submit "'r option" | Close

text \<open>
  The world: the queue \<open>self._requests\<close> (its items and its count of unfinished
  tasks), the consumer thread, the attributes \<open>self\<close> that the hooks read and write,
  and the caller (the calls still to make, whether it waits in \<open>join\<close>, the calls that
  have returned). Four fields only record history: every item ever put, every item the
  consumer has taken, every request \<open>process\<close> was called with, and the number of calls
  of \<open>shutdown\<close>.
\<close>

record ('r, 's) world =
  requests :: "'r option list"
  unfinished_tasks :: nat
  thread :: thread_state
  self :: 's
  todo :: "'r call list"
  joining :: bool
  returned :: "'r call list"
  submitted :: "'r option list"
  consumed :: "'r option list"
  observed :: "'r list"
  shutdowns :: nat

text \<open>\<open>__init__\<close>: an empty queue and a started thread.\<close>

definition init :: "'s \<Rightarrow> 'r call list \<Rightarrow> ('r, 's) world" where
  "init s calls =
     \<lparr> requests = [], unfinished_tasks = 0, thread = Running, self = s,
       todo = calls, joining = False, returned = [],
       submitted = [], consumed = [], observed = [], shutdowns = 0 \<rparr>"

text \<open>\<open>Queue.put\<close> on an unbounded queue: it neither blocks nor raises.\<close>

definition put :: "'r option \<Rightarrow> ('r, 's) world \<Rightarrow> ('r, 's) world" where
  "put item w =
     w\<lparr> requests := requests w @ [item],
        unfinished_tasks := Suc (unfinished_tasks w),
        submitted := submitted w @ [item] \<rparr>"

definition submit :: "'r option \<Rightarrow> ('r, 's) world \<Rightarrow> ('r, 's) world" where
  "submit request w = put request w"

text \<open>\<open>Queue.task_done\<close>: one unfinished task less, \<open>ValueError\<close> when there is none.\<close>

definition task_done :: "('r, 's) world \<Rightarrow> ('r, 's) world" where
  "task_done w =
     (if unfinished_tasks w = 0 then w\<lparr> thread := Died ValueError \<rparr>
      else w\<lparr> unfinished_tasks := unfinished_tasks w - 1 \<rparr>)"

text \<open>
  One iteration of the loop of \<open>_run\<close>. \<open>None\<close> is returned when the thread cannot move:
  it has ended, or \<open>get\<close> blocks on the empty queue. The hooks touch \<open>self\<close> only and
  the caller touches the queue only, so an iteration is one step, taken whenever the
  scheduler lets the consumer move.
\<close>

definition run_iteration :: "('r, 's) hooks \<Rightarrow> ('r, 's) world \<Rightarrow> ('r, 's) world option" where
  "run_iteration h w =
     (if thread w \<noteq> Running then None
      else case requests w of
        [] \<Rightarrow> None
      | request # rest \<Rightarrow>
          (let w1 = w\<lparr> requests := rest, consumed := consumed w @ [request] \<rparr>
           in case request of
             None \<Rightarrow>
               (case shutdown h (self w1) of
                  Inl (e, s) \<Rightarrow>
                    Some (w1\<lparr> self := s, shutdowns := Suc (shutdowns w1), thread := Died e \<rparr>)
                | Inr s \<Rightarrow>
                    Some (w1\<lparr> self := s, shutdowns := Suc (shutdowns w1), thread := Finished \<rparr>))
           | Some r \<Rightarrow>
               (case process h r (self w1) of
                  Inl (e, s) \<Rightarrow>
                    Some (w1\<lparr> self := s, observed := observed w1 @ [r], thread := Died e \<rparr>)
                | Inr s \<Rightarrow>
                    Some (task_done (w1\<lparr> self := s, observed := observed w1 @ [r] \<rparr>)))))"

text \<open>
  The caller's next move. \<open>submit\<close> returns at once. \<open>close\<close> is two moves: the
  \<open>put(None)\<close>, then \<open>join\<close>, which returns only when the thread has ended; \<open>None\<close>
  is returned while the caller is blocked there, or when it has no call left.
\<close>

definition caller_step :: "('r, 's) world \<Rightarrow> ('r, 's) world option" where
  "caller_step w =
     (if joining w then
        (if thread w = Running then None
         else Some (w\<lparr> joining := False, returned := returned w @ [Close] \<rparr>))
      else case todo w of
        [] \<Rightarrow> None
      | Submit request # rest \<Rightarrow>
          Some ((submit request w)\<lparr> todo := rest, returned := returned w @ [Submit request] \<rparr>)
      | Close # rest \<Rightarrow>
          Some ((put None w)\<lparr> todo := rest, joining := True \<rparr>))"

text \<open>
  The scheduler gives turns to the two threads in any order; a turn given to a blocked
  thread changes nothing. Every interleaving of the caller and the consumer is
  \<open>run h ts w\<close> for some list of turns \<open>ts\<close>.
\<close>

datatype turn = Consumer | Caller

definition turn_step :: "('r, 's) hooks \<Rightarrow> turn \<Rightarrow> ('r, 's) world \<Rightarrow> ('r, 's) world" where
  "turn_step h t w =
     (case (case t of Consumer \<Rightarrow> run_iteration h w | Caller \<Rightarrow> caller_step w) of
        None \<Rightarrow> w
      | Some w' \<Rightarrow> w')"

fun run :: "('r, 's) hooks \<Rightarrow> turn list \<Rightarrow> ('r, 's) world \<Rightarrow> ('r, 's) world" where
  "run h [] w = w"
| "run h (t # ts) w = run h ts (turn_step h t w)"

text \<open>The item a call puts on the queue: \<open>close\<close> puts \<open>None\<close>.\<close>

fun item_of :: "'r call \<Rightarrow> 'r option" where
  "item_of (Submit request) = request"
| "item_of Close = None"

text \<open>The requests among a list of items, in order.\<close>

fun somes :: "'r option list \<Rightarrow> 'r list" where
  "somes [] = []"
| "somes (None # xs) = somes xs"
| "somes (Some r # xs) = r # somes xs"

text \<open>
  Processing a list of requests one after the other, from the attributes \<open>s\<close>: the
  first raise ends it.
\<close>

fun process_all :: "('r, 's) hooks \<Rightarrow> 'r list \<Rightarrow> 's \<Rightarrow> 's outcome" where
  "process_all h [] s = Inr s"
| "process_all h (r # rs) s =
     (case process h r s of Inl e \<Rightarrow> Inl e | Inr s' \<Rightarrow> process_all h rs s')"

text \<open>
  What the consumer has become after taking the items \<open>xs\<close> from the queue, starting
  from the attributes \<open>s\<close>: the loop of \<open>_run\<close> as a recursion over the items taken.
\<close>

fun replay :: "('r, 's) hooks \<Rightarrow> 'r option list \<Rightarrow> 's \<Rightarrow> thread_state \<times> 's" where
  "replay h [] s = (Running, s)"
| "replay h (None # xs) s =
     (case shutdown h s of Inl (e, s') \<Rightarrow> (Died e, s') | Inr s' \<Rightarrow> (Finished, s'))"
| "replay h (Some r # xs) s =
     (case process h r s of Inl (e, s') \<Rightarrow> (Died e, s') | Inr s' \<Rightarrow> replay h xs s')"

section \<open>Invariants of the worker\<close>

text \<open>
  What holds of the queue and the consumer in every world the scheduler can reach from
  \<open>init s0 calls\<close>: nothing put is lost, the count of unfinished tasks covers the
  queue, the consumer is what \<open>replay\<close> makes of the items it has taken, it took
  nothing after the item that ended it, and the history fields agree.
\<close>

definition consumer_inv :: "('r, 's) hooks \<Rightarrow> 's \<Rightarrow> ('r, 's) world \<Rightarrow> bool" where
  "consumer_inv h s0 w \<longleftrightarrow>
     submitted w = consumed w @ requests w
   \<and> length (requests w) \<le> unfinished_tasks w
   \<and> replay h (consumed w) s0 = (thread w, self w)
   \<and> fst (replay h (butlast (consumed w)) s0) = Running
   \<and> observed w = somes (consumed w)
   \<and> shutdowns w = count_list (consumed w) None"

text \<open>
  What holds of the caller: its calls are those that returned, the \<open>close\<close> it may be
  waiting in, and those still to make; the items put are those of the first two; and a
  \<open>close\<close> has returned only if the thread has ended.
\<close>

definition caller_inv :: "'r call list \<Rightarrow> ('r, 's) world \<Rightarrow> bool" where
  "caller_inv calls w \<longleftrightarrow>
     calls = returned w @ (if joining w then [Close] else []) @ todo w
   \<and> submitted w = map item_of (returned w @ (if joining w then [Close] else []))
   \<and> (Close \<in> set (returned w) \<longrightarrow> thread w \<noteq> Running)"

section \<open>Services for the scenarios\<close>

text \<open>
  The base class on numbered requests; a subclass whose \<open>process\<close> raises on request
  \<open>0\<close>, as a hook that drives a device can; and a subclass that keeps a log in its
  attributes, to which \<open>process\<close> appends the request and \<open>shutdown\<close> appends
  \<open>None\<close>.
\<close>

definition plain_hooks :: "(nat, unit) hooks" where
  "plain_hooks = Service_hooks"

definition failing_hooks :: "(nat, unit) hooks" where
  "failing_hooks =
     \<lparr> process = (\<lambda>request s. if request = 0 then Inl (OtherError ''device'', s) else Inr s),
       shutdown = (\<lambda>s. Inr s) \<rparr>"

definition logging_hooks :: "(nat, nat option list) hooks" where
  "logging_hooks =
     \<lparr> process = (\<lambda>request s. Inr (s @ [Some request])),
       shutdown = (\<lambda>s. Inr (s @ [None])) \<rparr>"

text \<open>
  Worlds of the scenarios. Three requests are submitted before the consumer gets a turn.
\<close>

definition backlog_world :: "(nat, nat option list) world" where
  "backlog_world =
     run logging_hooks [Caller, Caller, Caller]
       (init [] [Submit (Some 1), Submit (Some 2), Submit (Some 3)])"






text \<open>A request on which \<open>process\<close> raises, a request, \<open>close\<close>.\<close>

definition failing_calls :: "nat call list" where
  "failing_calls = [Submit (Some 0), Submit (Some 2), Close]"


definition doomed_world :: "(nat, unit) world" where
  "doomed_world = run failing_hooks [Caller, Caller] (init () failing_calls)"

text \<open>A request on which \<open>process\<close> raises and a request after it, with no \<open>close\<close>.\<close>

definition stalled_world :: "(nat, unit) world" where
  "stalled_world =
     run failing_hooks [Caller, Caller, Consumer, Consumer, Consumer]
       (init () [Submit (Some 0), Submit (Some 2)])"

text \<open>A request on which \<open>process\<close> raises, then \<open>submit(None)\<close>.\<close>

definition unreached_None_world :: "(nat, unit) world" where
  "unreached_None_world =
     run failing_hooks [Caller, Caller, Consumer, Consumer, Consumer]
       (init () [Submit (Some 0), Submit None])"

text \<open>A request, \<open>submit(None)\<close>, and a request submitted after it.\<close>

definition None_calls :: "nat call list" where
  "None_calls = [Submit (Some 1), Submit None, Submit (Some 2)]"

definition before_None_world :: "(nat, nat option list) world" where
  "before_None_world = run logging_hooks [Caller] (init [] None_calls)"

definition after_None_world :: "(nat, nat option list) world" where
  "after_None_world = run logging_hooks [Caller, Caller, Caller] (init [] None_calls)"

definition ended_None_world :: "(nat, nat option list) world" where
  "ended_None_world =
     run logging_hooks [Caller, Caller, Caller, Consumer, Consumer, Consumer]
       (init [] None_calls)"

section \<open>The Photographer (services.py, lines 113-182)\<close>

text \<open>
  A detection as the source reads it: its \<open>bounding_box\<close> and its \<open>joy_score\<close>.
  The camera is known by the resolution it was opened with.
\<close>

record face =
  bounding_box :: bbox
  joy_score :: real

record camera =
  resolution :: "nat \<times> nat"

text \<open>
  The pixels are left out: an image is its size and what has been drawn on it, in order.
  A file holds the still as the camera wrote it, or a region cut from an image.
\<close>

datatype drawing =
    Outline bbox
  | Filled bbox
  | Label "real \<times> real" real

record image =
  image_size :: "nat \<times> nat"
  drawn :: "drawing list"

datatype artifact = Still image | Crop image bbox

text \<open>
  What the hooks read from outside the object: the clock (\<open>time.strftime\<close>), the home
  directories (\<open>os.path.expanduser\<close>; the empty name is the current user), and the
  height of a line of text in the font.
\<close>

record environment =
  now :: string
  home :: "string \<Rightarrow> string option"
  text_height :: real

text \<open>
  The attributes of a Photographer, the files it has written and, as history only, the
  regions \<open>image.crop\<close> has returned.
\<close>

record photographer =
  faces :: "face list \<times> (real \<times> real)"
  format :: string
  folder :: string
  written :: "(string \<times> artifact) list"
  crops :: "artifact list"

text \<open>
  The two kinds of message on the one queue: a tuple replaces the cached detections,
  anything else is the camera to shoot with.
\<close>

datatype message = Faces "face list \<times> (real \<times> real)" | Shoot camera

text \<open>\<open>__init__\<close>: the format is asserted to be one of three.\<close>

definition Photographer_init :: "string \<Rightarrow> string \<Rightarrow> error + photographer" where
  "Photographer_init fmt dir =
     (if fmt \<in> set [''jpeg'', ''bmp'', ''png'']
      then Inr \<lparr> faces = ([], (0, 0)), format = fmt, folder = dir, written = [], crops = [] \<rparr>
      else Inl AssertionError)"

text \<open>
  \<open>os.path.expanduser\<close> of the standard library: a path that does not start with a
  tilde is returned as it is; otherwise the user's home directory, without its trailing
  slashes, replaces the part before the first slash, when that user is known.
\<close>

definition expanduser :: "(string \<Rightarrow> string option) \<Rightarrow> string \<Rightarrow> string" where
  "expanduser homes path =
     (case path of
        [] \<Rightarrow> path
      | c # rest \<Rightarrow>
          if c \<noteq> CHR ''~'' then path
          else (case homes (takeWhile (\<lambda>d. d \<noteq> CHR ''/'') rest) of
                  None \<Rightarrow> path
                | Some userhome \<Rightarrow>
                    (let expanded = rev (dropWhile (\<lambda>d. d = CHR ''/'') (rev userhome))
                                      @ dropWhile (\<lambda>d. d \<noteq> CHR ''/'') rest
                     in if expanded = [] then ''/'' else expanded)))"

text \<open>
  \<open>_make_filename\<close>: the template with the underscore when the suffix is not empty,
  the one without it otherwise, filled with folder, timestamp, suffix and format.
\<close>

definition make_filename :: "environment \<Rightarrow> photographer \<Rightarrow> string \<Rightarrow> string \<Rightarrow> string" where
  "make_filename env p timestamp suffix' =
     expanduser (home env)
       (if length suffix' > 0
        then folder p @ ''/'' @ timestamp @ ''_'' @ suffix' @ ''.'' @ format p
        else folder p @ ''/'' @ timestamp @ suffix' @ ''.'' @ format p)"

text \<open>
  \<open>draw_rectangle\<close>: the border is asserted odd; one rectangle is drawn for each
  \<open>i\<close> of \<open>range(-border // 2, border // 2 + 1)\<close>, whose upper bound is excluded.
\<close>

definition draw_rectangle ::
  "drawing list \<Rightarrow> real \<Rightarrow> real \<Rightarrow> real \<Rightarrow> real \<Rightarrow> int \<Rightarrow> bool \<Rightarrow> error + drawing list" where
  "draw_rectangle draw x0 y0 x1 y1 border fill =
     (if border mod 2 \<noteq> 1 then Inl AssertionError
      else Inr (draw @ map (\<lambda>i. (if fill then Filled else Outline)
                                   (x0 + real_of_int i, y0 + real_of_int i,
                                    x1 - real_of_int i, y1 - real_of_int i))
                          [(- border) div 2 .. border div 2 + 1 - 1]))"

text \<open>\<open>_draw_face\<close>: the frame of the scaled box, the filled strip under it, the label.\<close>

definition draw_face ::
  "environment \<Rightarrow> drawing list \<Rightarrow> face \<Rightarrow> real \<Rightarrow> real \<Rightarrow> error + drawing list" where
  "draw_face env draw f scale_x scale_y =
     (case scale_bounding_box (bounding_box f) scale_x scale_y of (x, y, width, height) \<Rightarrow>
        (let margin = 3;
             bottom = y + height;
             text_bottom = bottom + margin + text_height env + margin
         in case draw_rectangle draw x y (x + width) bottom 3 False of
              Inl e \<Rightarrow> Inl e
            | Inr draw1 \<Rightarrow>
                (case draw_rectangle draw1 x bottom (x + width) text_bottom 3 True of
                   Inl e \<Rightarrow> Inl e
                 | Inr draw2 \<Rightarrow>
                     Inr (draw2 @ [Label (x + 1 + margin, y + height + 1 + margin)
                                         (joy_score f)]))))"

text \<open>
  \<open>Image.crop\<close> and \<open>Image.save\<close> of the image library, as far as the regions
  matter. \<open>crop\<close> refuses a box whose right is less than its left or whose lower is
  less than its upper; the region it returns has the pixels between the corners rounded
  as Python's \<open>round\<close> does, to the nearest integer and a half to the even one.
  \<open>save\<close> refuses an image without a pixel and then leaves no file.
\<close>

definition py_round :: "real \<Rightarrow> int" where
  "py_round x =
     (let f = \<lfloor>x\<rfloor>; d = x - of_int f
      in if d < 1 / 2 then f else if 1 / 2 < d then f + 1 else if even f then f else f + 1)"

definition crop :: "image \<Rightarrow> bbox \<Rightarrow> error + artifact" where
  "crop img box =
     (case box of (left, upper, right, lower) \<Rightarrow>
        if right < left \<or> lower < upper then Inl ValueError else Inr (Crop img box))"

fun box_pixels :: "bbox \<Rightarrow> int \<times> int" where
  "box_pixels (left, upper, right, lower) =
     (py_round right - py_round left, py_round lower - py_round upper)"

fun pixels :: "artifact \<Rightarrow> int \<times> int" where
  "pixels (Still img) = (int (fst (image_size img)), int (snd (image_size img)))"
| "pixels (Crop img box) = box_pixels box"

definition save ::
  "string \<Rightarrow> artifact \<Rightarrow> (string \<times> artifact) list \<Rightarrow> error + (string \<times> artifact) list" where
  "save filename region files =
     (case pixels region of (w, h) \<Rightarrow>
        if w \<le> 0 \<or> h \<le> 0 then Inl ValueError else Inr (files @ [(filename, region)]))"

text \<open>
  The loop over the faces in \<open>process\<close>: each face's box is scaled, turned into corners
  and cut from the image as it is then; after that the face is drawn on the image.
  \<open>image2\<close> is the last region cut, \<open>None\<close> while the name is unbound.
\<close>

fun crop_faces ::
  "environment \<Rightarrow> face list \<Rightarrow> real \<Rightarrow> real \<Rightarrow> image \<Rightarrow> artifact option \<Rightarrow> artifact list
     \<Rightarrow> error + (image \<times> artifact option \<times> artifact list)" where
  "crop_faces env [] scale_x scale_y img image2 regions = Inr (img, image2, regions)"
| "crop_faces env (f # fs) scale_x scale_y img image2 regions =
     (let scaled = scale_bounding_box (bounding_box f) scale_x scale_y;
          corners = bounding_extent_to_corners scaled (image_size img)
      in case crop img corners of
           Inl e \<Rightarrow> Inl e
         | Inr region \<Rightarrow>
             (case draw_face env (drawn img) f scale_x scale_y of
                Inl e \<Rightarrow> Inl e
              | Inr draw \<Rightarrow>
                  crop_faces env fs scale_x scale_y (img\<lparr> drawn := draw \<rparr>) (Some region)
                    (regions @ [region])))"

text \<open>
  The scale factors of line 168, \<open>image.width / width, image.height / height\<close>: a
  division by zero raises.
\<close>

definition scale_factors :: "image \<Rightarrow> real \<times> real \<Rightarrow> error + (real \<times> real)" where
  "scale_factors img geometry =
     (case geometry of (width, height) \<Rightarrow>
        if width = 0 \<or> height = 0 then Inl ZeroDivisionError
        else Inr (real (fst (image_size img)) / width, real (snd (image_size img)) / height))"

text \<open>
  \<open>Photographer.process\<close>. The camera and the file system are collaborators outside
  the source; their calls are taken to succeed. The line that would save the annotated
  image is a comment in the source, so no such file is written.
\<close>

definition Photographer_process ::
  "environment \<Rightarrow> message \<Rightarrow> photographer \<Rightarrow> photographer outcome" where
  "Photographer_process env message p =
     (case message of
        Faces cached \<Rightarrow> Inr (p\<lparr> faces := cached \<rparr>)
      | Shoot cam \<Rightarrow>
          (let timestamp = now env;
               img = \<lparr> image_size = resolution cam, drawn = [] \<rparr>;
               filename = make_filename env p timestamp [];
               p1 = p\<lparr> written := written p @ [(filename, Still img)] \<rparr>
           in case faces p1 of (fs, geometry) \<Rightarrow>
                if fs \<noteq> [] then
                  (let filename1 = make_filename env p1 timestamp ''annotated'';
                       filename2 = make_filename env p1 timestamp ''cropped''
                   in case scale_factors img geometry of
                        Inl e \<Rightarrow> Inl (e, p1)
                      | Inr (scale_x, scale_y) \<Rightarrow>
                          (case crop_faces env fs scale_x scale_y img None [] of
                             Inl e \<Rightarrow> Inl (e, p1)
                           | Inr (img', image2, regions) \<Rightarrow>
                               (case image2 of
                                  None \<Rightarrow>
                                    Inl (OtherError ''UnboundLocalError'',
                                         p1\<lparr> crops := crops p1 @ regions \<rparr>)
                                | Some region \<Rightarrow>
                                    (case save filename2 region (written p1) of
                                       Inl e \<Rightarrow> Inl (e, p1\<lparr> crops := crops p1 @ regions \<rparr>)
                                     | Inr files \<Rightarrow>
                                         Inr (p1\<lparr> crops := crops p1 @ regions,
                                                 written := files \<rparr>)))))
                else Inr p1))"

definition Photographer_hooks :: "environment \<Rightarrow> (message, photographer) hooks" where
  "Photographer_hooks env = \<lparr> process = Photographer_process env, shutdown = (\<lambda>s. Inr s) \<rparr>"

text \<open>
  What \<open>_draw_face\<close> adds to an image for one face; the corners a face's region is
  cut at, for a camera and a cached geometry; the boxes \<open>crop\<close> accepts and those that
  hold a pixel; and the regions the loop cuts from an image: the one of each face, at its
  corners, out of the image with the faces before it drawn on it.
\<close>

definition face_drawings :: "environment \<Rightarrow> face \<Rightarrow> real \<Rightarrow> real \<Rightarrow> drawing list" where
  "face_drawings env f scale_x scale_y =
     (case draw_face env [] f scale_x scale_y of Inl e \<Rightarrow> [] | Inr draw \<Rightarrow> draw)"

fun upright :: "bbox \<Rightarrow> bool" where
  "upright (left, upper, right, lower) \<longleftrightarrow> left \<le> right \<and> upper \<le> lower"

definition has_pixels :: "bbox \<Rightarrow> bool" where
  "has_pixels box \<longleftrightarrow> 0 < fst (box_pixels box) \<and> 0 < snd (box_pixels box)"

definition regions_cut ::
  "environment \<Rightarrow> image \<Rightarrow> face list \<Rightarrow> real \<Rightarrow> real \<Rightarrow> artifact list" where
  "regions_cut env img fs scale_x scale_y =
     map (\<lambda>k. Crop (img\<lparr> drawn := drawn img
                           @ concat (map (\<lambda>f. face_drawings env f scale_x scale_y) (take k fs)) \<rparr>)
                   (bounding_extent_to_corners
                      (scale_bounding_box (bounding_box (fs ! k)) scale_x scale_y)
                      (image_size img)))
       [0 ..< length fs]"

definition face_corners :: "camera \<Rightarrow> real \<times> real \<Rightarrow> face \<Rightarrow> bbox" where
  "face_corners cam geometry f =
     bounding_extent_to_corners
       (scale_bounding_box (bounding_box f)
          (real (fst (resolution cam)) / fst geometry)
          (real (snd (resolution cam)) / snd geometry))
       (resolution cam)"

text \<open>
  The attributes after a call of a hook, whether it returned or raised; and the corners
  a region was cut at.
\<close>

fun state_of :: "'s outcome \<Rightarrow> 's" where
  "state_of (Inl (e, s)) = s"
| "state_of (Inr s) = s"

fun corners_of :: "artifact \<Rightarrow> bbox option" where
  "corners_of (Still img) = None"
| "corners_of (Crop img corners) = Some corners"

text \<open>
  The setting of the scenarios: the folder and format of \<open>face_cap.py\<close>, a camera of
  820 by 616, one detection, and a second one for a frame with two faces.
\<close>

definition studio_env :: environment where
  "studio_env =
     \<lparr> now = ''2024-01-01_00.00.00'',
       home = (\<lambda>user. if user = [] then Some ''/home/pi'' else None),
       text_height = 25 \<rparr>"

definition studio :: photographer where
  "studio = \<lparr> faces = ([], (0, 0)), format = ''jpeg'', folder = ''./captures'',
              written = [], crops = [] \<rparr>"

definition pi_camera :: camera where
  "pi_camera = \<lparr> resolution = (820, 616) \<rparr>"

definition detection :: face where
  "detection = \<lparr> bounding_box = (10, 10, 50, 50), joy_score = 9 / 10 \<rparr>"


definition still :: image where
  "still = \<lparr> image_size = (820, 616), drawn = [] \<rparr>"

definition ready :: photographer where
  "ready = studio\<lparr> faces := ([detection], (320, 240)) \<rparr>"







section \<open>The Animator (services.py, lines 185-202)\<close>

type_synonym color = "real \<times> real \<times> real"

definition JOY_COLOR :: color where
  "JOY_COLOR = (255, 70, 0)"

definition SAD_COLOR :: color where
  "SAD_COLOR = (0, 0, 64)"

text \<open>What \<open>Leds.update\<close> was last given: \<open>Leds.rgb_off()\<close> or \<open>Leds.rgb_on(color)\<close>.\<close>

datatype leds = Rgb_off | Rgb_on color

text \<open>
  Modelled from the spec: \<open>Color.blend\<close> belongs to the package \<open>aiy.leds\<close>, which is
  not among the sources. The specification gives it as the component-wise linear
  interpolation \<open>joy * (1 - score) + sad * score\<close>.
\<close>

fun blend :: "color \<Rightarrow> color \<Rightarrow> real \<Rightarrow> color" where
  "blend (jr, jg, jb) (sr, sg, sb) score =
     (jr * (1 - score) + sr * score,
      jg * (1 - score) + sg * score,
      jb * (1 - score) + sb * score)"

text \<open>
  \<open>Animator.process\<close> and \<open>Animator.shutdown\<close>, with the blend function of the
  library as a parameter.
\<close>

definition Animator_process ::
  "(color \<Rightarrow> color \<Rightarrow> real \<Rightarrow> color) \<Rightarrow> real \<Rightarrow> leds \<Rightarrow> leds outcome" where
  "Animator_process blend_of joy_score' device =
     (if joy_score' > 0 then Inr (Rgb_on (blend_of JOY_COLOR SAD_COLOR joy_score'))
      else Inr Rgb_off)"

definition Animator_shutdown :: "leds \<Rightarrow> leds outcome" where
  "Animator_shutdown device = Inr Rgb_off"

definition Animator_hooks :: "(color \<Rightarrow> color \<Rightarrow> real \<Rightarrow> color) \<Rightarrow> (real, leds) hooks" where
  "Animator_hooks blend_of =
     \<lparr> process = Animator_process blend_of, shutdown = Animator_shutdown \<rparr>"

text \<open>The three channels of a colour.\<close>

fun red :: "color \<Rightarrow> real" where
  "red (r, g, b) = r"

fun green :: "color \<Rightarrow> real" where
  "green (r, g, b) = g"

fun blue :: "color \<Rightarrow> real" where
  "blue (r, g, b) = b"

section \<open>Geometry theorems\<close>

text \<open>
  C8. For all reals \<open>x, y, w, h, sx, sy\<close>, scaling the box \<open>(x, y, w, h)\<close> by
  \<open>(sx, sy)\<close> gives \<open>(x * sx, y * sy, w * sx, h * sy)\<close>.
\<close>

theorem scale_bounding_box_linear:
  "scale_bounding_box (x, y, w, h) sx sy = (x * sx, y * sy, w * sx, h * sy)"
  by simp

text \<open>
  C9. For every box \<open>(x, y, w, h)\<close> and every \<open>image_size\<close> argument the corner
  conversion returns exactly \<open>(x, y, x + w, y + h)\<close>; two calls with different image
  sizes agree, so no corner is clamped to the image bounds.
\<close>

theorem bounding_extent_to_corners_unclamped:
  "bounding_extent_to_corners (x, y, w, h) any_size = (x, y, x + w, y + h)
   \<and> bounding_extent_to_corners (x, y, w, h) any_size
       = bounding_extent_to_corners (x, y, w, h) other_size"
  by simp

section \<open>Facts about the worker\<close>

lemma replay_append:
  "replay h xs s = (Running, s') \<Longrightarrow> replay h (xs @ ys) s = replay h ys s'"
  by (induction h xs s rule: replay.induct) (auto split: sum.splits prod.splits)

lemma replay_running:
  "replay h xs s = (Running, s') \<Longrightarrow> None \<notin> set xs \<and> process_all h (somes xs) s = Inr s'"
  by (induction h xs s rule: replay.induct) (auto split: sum.splits prod.splits)

lemma somes_append: "somes (xs @ ys) = somes xs @ somes ys"
  by (induction xs rule: somes.induct) auto

lemma somes_map_Some: "somes (map Some rs) = rs"
  by (induction rs) auto

lemma consumer_inv_init: "consumer_inv h s0 (init s0 calls)"
  by (simp add: consumer_inv_def init_def)

lemma caller_inv_init: "caller_inv calls (init s0 calls)"
  by (simp add: caller_inv_def init_def)

lemma consumer_inv_put: "consumer_inv h s0 w \<Longrightarrow> consumer_inv h s0 (put item w)"
  by (simp add: consumer_inv_def put_def)

lemma consumer_inv_caller_step:
  "consumer_inv h s0 w \<Longrightarrow> caller_step w = Some w' \<Longrightarrow> consumer_inv h s0 w'"
  by (auto simp: consumer_inv_def caller_step_def put_def submit_def split: if_splits list.splits call.splits)

lemma consumer_inv_run_iteration:
  assumes "consumer_inv h s0 w" and "run_iteration h w = Some w'"
  shows "consumer_inv h s0 w'"
proof -
  from assms(2) obtain request rest where
    run: "thread w = Running" and q: "requests w = request # rest"
    by (auto simp: run_iteration_def split: if_splits list.splits)
  from assms(1) run have rp: "replay h (consumed w) s0 = (Running, self w)"
    by (simp add: consumer_inv_def)
  have ap: "replay h (consumed w @ [request]) s0 = replay h [request] (self w)"
    using rp by (rule replay_append)
  from assms(1) q have pos: "unfinished_tasks w \<noteq> 0"
    by (auto simp: consumer_inv_def)
  show ?thesis
    using assms run q rp ap pos
    by (cases request)
       (auto simp: consumer_inv_def run_iteration_def task_done_def Let_def somes_append
             split: sum.splits prod.splits)
qed

lemma caller_inv_caller_step:
  "caller_inv calls w \<Longrightarrow> caller_step w = Some w' \<Longrightarrow> caller_inv calls w'"
  by (auto simp: caller_inv_def caller_step_def put_def submit_def split: if_splits list.splits call.splits)

lemma caller_inv_run_iteration:
  "caller_inv calls w \<Longrightarrow> run_iteration h w = Some w' \<Longrightarrow> caller_inv calls w'"
  by (auto simp: caller_inv_def run_iteration_def task_done_def Let_def
           split: if_splits list.splits option.splits sum.splits prod.splits)

lemma run_append: "run h (ts @ us) w = run h us (run h ts w)"
  by (induction ts arbitrary: w) auto

lemma consumer_inv_turn_step: "consumer_inv h s0 w \<Longrightarrow> consumer_inv h s0 (turn_step h t w)"
  by (cases t)
     (auto simp: turn_step_def split: option.splits
           intro: consumer_inv_run_iteration consumer_inv_caller_step)

lemma caller_inv_turn_step: "caller_inv calls w \<Longrightarrow> caller_inv calls (turn_step h t w)"
  by (cases t)
     (auto simp: turn_step_def split: option.splits
           intro: caller_inv_run_iteration caller_inv_caller_step)

lemma consumer_inv_run: "consumer_inv h s0 w \<Longrightarrow> consumer_inv h s0 (run h ts w)"
  by (induction ts arbitrary: w) (auto intro: consumer_inv_turn_step)

lemma caller_inv_run: "caller_inv calls w \<Longrightarrow> caller_inv calls (run h ts w)"
  by (induction ts arbitrary: w) (auto intro: caller_inv_turn_step)

lemma consumer_inv_reach: "consumer_inv h s0 (run h ts (init s0 calls))"
  by (rule consumer_inv_run) (rule consumer_inv_init)

lemma caller_inv_reach: "caller_inv calls (run h ts (init s0 calls))"
  by (rule caller_inv_run) (rule caller_inv_init)

text \<open>Once the thread has ended, the consumer's side of the world never changes.\<close>

lemma run_iteration_ended: "thread w \<noteq> Running \<Longrightarrow> run_iteration h w = None"
  by (simp add: run_iteration_def)

lemma turn_step_ended:
  assumes "thread w \<noteq> Running"
  shows "thread (turn_step h t w) = thread w \<and> observed (turn_step h t w) = observed w
       \<and> consumed (turn_step h t w) = consumed w \<and> shutdowns (turn_step h t w) = shutdowns w
       \<and> self (turn_step h t w) = self w
       \<and> unfinished_tasks (turn_step h t w) \<ge> unfinished_tasks w
       \<and> prefix (requests w) (requests (turn_step h t w))"
  using assms
  by (cases t)
     (auto simp: turn_step_def run_iteration_ended caller_step_def put_def submit_def
           split: option.splits list.splits call.splits if_splits)

lemma run_ended:
  "thread w \<noteq> Running \<Longrightarrow>
   thread (run h ts w) = thread w \<and> observed (run h ts w) = observed w
     \<and> consumed (run h ts w) = consumed w \<and> shutdowns (run h ts w) = shutdowns w
     \<and> self (run h ts w) = self w
     \<and> prefix (requests w) (requests (run h ts w))"
proof (induction ts arbitrary: w)
  case Nil
  then show ?case by simp
next
  case (Cons t ts)
  from Cons.prems have st: "thread (turn_step h t w) = thread w"
    and rest: "observed (turn_step h t w) = observed w" "consumed (turn_step h t w) = consumed w"
      "shutdowns (turn_step h t w) = shutdowns w" "self (turn_step h t w) = self w"
      "prefix (requests w) (requests (turn_step h t w))"
    using turn_step_ended [of w h t] by auto
  from st Cons.prems have "thread (turn_step h t w) \<noteq> Running" by simp
  from Cons.IH [OF this] st rest show ?case
    by (auto intro: prefix_order.trans)
qed

text \<open>Items are consumed in the order of the calls.\<close>

lemma consumed_prefix_calls:
  assumes "consumer_inv h s0 w" and "caller_inv calls w"
  shows "prefix (consumed w) (map item_of calls)"
proof -
  from assms(1) have "prefix (consumed w) (submitted w)"
    by (simp add: consumer_inv_def)
  moreover from assms(2) have "prefix (submitted w) (map item_of calls)"
    by (auto simp: caller_inv_def prefix_def)
  ultimately show ?thesis by (rule prefix_order.trans)
qed

lemma somes_prefix: "prefix xs ys \<Longrightarrow> prefix (somes xs) (somes ys)"
  by (auto simp: prefix_def somes_append)

lemma replay_map_Some:
  "process_all h rs s = Inr s1 \<Longrightarrow> replay h (map Some rs) s = (Running, s1)"
  by (induction rs arbitrary: s) (auto split: sum.splits)

lemma process_all_append:
  "process_all h (xs @ ys) s =
     (case process_all h xs s of Inl e \<Rightarrow> Inl e | Inr s' \<Rightarrow> process_all h ys s')"
  by (induction xs arbitrary: s) (auto split: sum.splits)

lemma process_all_take:
  "process_all h rs s = Inr s1 \<Longrightarrow> \<exists>s'. process_all h (take k rs) s = Inr s'"
  using process_all_append [of h "take k rs" "drop k rs" s]
  by (auto split: sum.splits)

text \<open>A prefix of \<open>map Some rs @ None # later\<close> is a part of the requests, or holds them all and the \<open>None\<close>.\<close>

lemma prefix_Some_None_cases:
  assumes "prefix xs (map Some rs @ None # later)"
  shows "(\<exists>k. xs = map Some (take k rs)) \<or> (\<exists>later'. xs = map Some rs @ None # later')"
proof (cases "length xs \<le> length rs")
  case True
  from assms obtain zs where "map Some rs @ None # later = xs @ zs"
    by (auto simp: prefix_def)
  then have "take (length xs) (map Some rs @ None # later) = xs"
    by simp
  with True have "xs = map Some (take (length xs) rs)"
    by (simp add: take_map)
  then show ?thesis by blast
next
  case False
  from assms obtain zs where zs: "map Some rs @ None # later = xs @ zs"
    by (auto simp: prefix_def)
  from False have "length (map Some rs @ [None :: 'a option]) \<le> length xs" by simp
  with zs have "prefix (map Some rs @ [None]) xs"
    by (metis append.assoc append_Cons append_Nil prefix_def prefix_length_prefix)
  then show ?thesis by (auto simp: prefix_def)
qed

lemma replay_fst_running_no_None:
  "fst (replay h xs s) = Running \<Longrightarrow> None \<notin> set xs"
  using replay_running [of h xs s "snd (replay h xs s)"]
  by (metis prod.collapse)

lemma consumed_None_last:
  assumes "consumer_inv h s0 w"
  shows "None \<notin> set (butlast (consumed w))"
  using assms replay_fst_running_no_None [of h "butlast (consumed w)" s0]
  by (simp add: consumer_inv_def)

lemma running_no_None:
  assumes "consumer_inv h s0 w" and "thread w = Running"
  shows "None \<notin> set (consumed w)"
  using assms replay_fst_running_no_None [of h "consumed w" s0]
  by (simp add: consumer_inv_def)

text \<open>When the consumer has taken a \<open>None\<close>, it has taken all that came before it and nothing after.\<close>

lemma consumed_None:
  assumes inv: "consumer_inv h s0 w"
    and pre: "prefix (consumed w) (map Some rs @ None # later)"
    and non: "None \<in> set (consumed w)"
  shows "consumed w = map Some rs @ [None]"
proof -
  from prefix_Some_None_cases [OF pre] non
  obtain later' where c: "consumed w = map Some rs @ None # later'"
    by (auto dest: in_set_takeD)
  have "later' = []"
  proof (rule ccontr)
    assume "later' \<noteq> []"
    with c have "butlast (consumed w) = map Some rs @ None # butlast later'"
      by (simp add: butlast_append)
    with consumed_None_last [OF inv] show False by simp
  qed
  with c show ?thesis by simp
qed

lemma consumed_None_ended:
  assumes inv: "consumer_inv h s0 w"
    and pre: "prefix (consumed w) (map Some rs @ None # later)"
    and non: "None \<in> set (consumed w)"
  shows "thread w \<noteq> Running \<and> shutdowns w = 1 \<and> observed w = rs"
proof -
  have c: "consumed w = map Some rs @ [None]"
    by (rule consumed_None [OF inv pre non])
  from running_no_None [OF inv] non have "thread w \<noteq> Running" by blast
  moreover from inv c have "shutdowns w = 1"
    by (simp add: consumer_inv_def count_list_0_iff) 
  moreover from inv c have "observed w = rs"
    by (simp add: consumer_inv_def somes_append somes_map_Some)
  ultimately show ?thesis by simp
qed

lemma observed_prefix_before_None:
  assumes inv: "consumer_inv h s0 w"
    and pre: "prefix (consumed w) (map Some rs @ None # later)"
  shows "prefix (observed w) rs"
proof (cases "None \<in> set (consumed w)")
  case True
  from consumed_None_ended [OF inv pre True] show ?thesis by simp
next
  case False
  from prefix_Some_None_cases [OF pre] False
  obtain k where "consumed w = map Some (take k rs)" by auto
  with inv have "observed w = take k rs"
    by (simp add: consumer_inv_def somes_map_Some)
  then show ?thesis by (simp add: take_is_prefix)
qed

text \<open>When no request raises, the consumer ends only by taking the \<open>None\<close>.\<close>

lemma running_while_requests:
  assumes inv: "consumer_inv h s0 w"
    and ok: "process_all h rs s0 = Inr s1"
    and c: "consumed w = map Some (take k rs)"
  shows "thread w = Running"
proof -
  from process_all_take [OF ok] obtain s' where "process_all h (take k rs) s0 = Inr s'"
    by blast
  then have "replay h (map Some (take k rs)) s0 = (Running, s')"
    by (rule replay_map_Some)
  with inv c show ?thesis by (simp add: consumer_inv_def)
qed

lemma ended_consumed_None:
  assumes inv: "consumer_inv h s0 w"
    and pre: "prefix (consumed w) (map Some rs @ None # later)"
    and ok: "process_all h rs s0 = Inr s1"
    and ended: "thread w \<noteq> Running"
  shows "None \<in> set (consumed w)"
proof (rule ccontr)
  assume "None \<notin> set (consumed w)"
  with prefix_Some_None_cases [OF pre]
  obtain k where "consumed w = map Some (take k rs)" by auto
  from running_while_requests [OF inv ok this] ended show False by simp
qed

lemma run_replicate_Suc:
  "run h (replicate (Suc n) t) w = run h (replicate n t) (turn_step h t w)"
  by simp

text \<open>A consumer whose queue holds a \<open>None\<close> ends within as many turns as the queue is long.\<close>

lemma consumer_turn_cases:
  assumes "thread w = Running" and "requests w = x # q"
  shows "thread (turn_step h Consumer w) \<noteq> Running
       \<or> (x \<noteq> None \<and> thread (turn_step h Consumer w) = Running
            \<and> requests (turn_step h Consumer w) = q)"
  using assms
  by (cases x)
     (auto simp: turn_step_def run_iteration_def task_done_def Let_def
           split: sum.splits prod.splits)

lemma consumer_turns_end:
  "None \<in> set (requests w) \<Longrightarrow> length (requests w) \<le> n \<Longrightarrow>
   thread (run h (replicate n Consumer) w) \<noteq> Running"
proof (induction n arbitrary: w)
  case 0
  then show ?case by simp
next
  case (Suc n)
  show ?case
  proof (cases "thread w = Running")
    case False
    then show ?thesis using run_ended [of w h "replicate (Suc n) Consumer"] by simp
  next
    case True
    from Suc.prems obtain x q where q: "requests w = x # q"
      by (cases "requests w") auto
    let ?w = "turn_step h Consumer w"
    from consumer_turn_cases [OF True q, of h]
    show ?thesis
    proof
      assume "thread ?w \<noteq> Running"
      then show ?thesis
        using run_ended [of ?w h "replicate n Consumer"] by simp
    next
      assume a: "x \<noteq> None \<and> thread ?w = Running \<and> requests ?w = q"
      with Suc.prems q have "None \<in> set (requests ?w)" "length (requests ?w) \<le> n"
        by auto
      from Suc.IH [OF this] show ?thesis by simp
    qed
  qed
qed

lemma consumer_turns_keep_caller:
  "joining (run h (replicate n Consumer) w) = joining w
   \<and> returned (run h (replicate n Consumer) w) = returned w
   \<and> todo (run h (replicate n Consumer) w) = todo w
   \<and> submitted (run h (replicate n Consumer) w) = submitted w"
proof (induction n arbitrary: w)
  case 0
  then show ?case by simp
next
  case (Suc n)
  have "joining (turn_step h Consumer w) = joining w
      \<and> returned (turn_step h Consumer w) = returned w
      \<and> todo (turn_step h Consumer w) = todo w
      \<and> submitted (turn_step h Consumer w) = submitted w"
    by (auto simp: turn_step_def run_iteration_def task_done_def Let_def
             split: option.splits if_splits list.splits sum.splits prod.splits)
  with Suc.IH [of "turn_step h Consumer w"] show ?case by simp
qed


text \<open>The caller's own turns, when no call of it is a \<open>close\<close>.\<close>

lemma caller_turns_drain:
  "\<not> joining w \<Longrightarrow> Close \<notin> set (todo w) \<Longrightarrow> length (todo w) \<le> n \<Longrightarrow>
   todo (run h (replicate n Caller) w) = [] \<and> \<not> joining (run h (replicate n Caller) w)"
proof (induction n arbitrary: w)
  case 0
  then show ?case by simp
next
  case (Suc n)
  let ?w = "turn_step h Caller w"
  from Suc.prems have "\<not> joining ?w \<and> Close \<notin> set (todo ?w) \<and> length (todo ?w) \<le> n"
    by (auto simp: turn_step_def caller_step_def put_def submit_def
             split: list.splits call.splits)
  with Suc.IH [of ?w] show ?case by simp
qed

lemma consumer_turns_drain:
  assumes ok: "process_all h rs s0 = Inr s1"
  shows "consumer_inv h s0 w \<Longrightarrow> caller_inv (map (\<lambda>r. Submit (Some r)) rs) w \<Longrightarrow>
         length (requests w) \<le> n \<Longrightarrow> requests (run h (replicate n Consumer) w) = []"
proof (induction n arbitrary: w)
  case 0
  then show ?case by simp
next
  case (Suc n)
  let ?w = "turn_step h Consumer w"
  have ci: "consumer_inv h s0 ?w" and ki: "caller_inv (map (\<lambda>r. Submit (Some r)) rs) ?w"
    using Suc.prems by (auto intro: consumer_inv_turn_step caller_inv_turn_step)
  from consumed_prefix_calls [OF Suc.prems(1,2)]
  have "prefix (consumed w) (map Some rs)" by (simp add: comp_def)
  then obtain k where "consumed w = map Some (take k rs)"
    by (metis prefix_def append_eq_conv_conj take_map)
  from running_while_requests [OF Suc.prems(1) ok this] have run: "thread w = Running" .
  have "length (requests ?w) \<le> n"
  proof (cases "requests w")
    case Nil
    then show ?thesis by (simp add: turn_step_def run_iteration_def)
  next
    case (Cons x q)
    from consumer_turn_cases [OF run Cons, of h] show ?thesis
    proof
      assume "thread ?w \<noteq> Running"
      moreover
      from consumed_prefix_calls [OF ci ki]
      have "prefix (consumed ?w) (map Some rs)" by (simp add: comp_def)
      then obtain k' where "consumed ?w = map Some (take k' rs)"
        by (metis prefix_def append_eq_conv_conj take_map)
      from running_while_requests [OF ci ok this] have "thread ?w = Running" .
      ultimately show ?thesis by simp
    next
      assume "x \<noteq> None \<and> thread ?w = Running \<and> requests ?w = q"
      with Suc.prems(3) Cons show ?thesis by simp
    qed
  qed
  from Suc.IH [OF ci ki this] show ?case by simp
qed

text \<open>Turns only add to what has been put and to what has been taken.\<close>

lemma turn_step_grows:
  "length (submitted w) \<le> length (submitted (turn_step h t w))
   \<and> length (consumed w) \<le> length (consumed (turn_step h t w))"
  by (cases t)
     (auto simp: turn_step_def run_iteration_def task_done_def caller_step_def put_def
             submit_def Let_def
           split: option.splits if_splits list.splits sum.splits prod.splits call.splits)

lemma consumer_turn_keeps_submitted:
  "submitted (turn_step h Consumer w) = submitted w"
  using consumer_turns_keep_caller [of h "Suc 0" w] by simp

text \<open>While requests of \<open>rs\<close> are still to submit, a turn of the caller submits one.\<close>

lemma caller_turn_progress:
  assumes inv: "caller_inv (map (\<lambda>r. Submit (Some r)) rs @ others) w"
    and less: "length (submitted w) < length rs"
  shows "length (submitted (turn_step h Caller w)) = Suc (length (submitted w))"
proof -
  define made where "made = returned w @ (if joining w then [Close] else [])"
  define firsts where "firsts = map (\<lambda>r. Submit (Some r)) rs"
  from inv have split: "firsts @ others = made @ todo w"
    and len: "length (submitted w) = length made"
    by (simp_all add: caller_inv_def made_def firsts_def)
  from less len have short: "length made < length firsts"
    by (simp add: firsts_def)
  have "take (length made) (firsts @ others) = take (length made) firsts"
    using short by simp
  moreover have "take (length made) (made @ todo w) = made"
    by simp
  ultimately have d: "made = take (length made) firsts"
    using split by simp
  have "Close \<notin> set firsts"
    by (auto simp: firsts_def)
  with d have "Close \<notin> set made"
    by (metis in_set_takeD)
  then have nj: "\<not> joining w"
    by (auto simp: made_def)
  have "(firsts @ others) ! length made = firsts ! length made"
    using short by (simp add: nth_append)
  moreover have "(made @ todo w) ! length made = todo w ! 0"
    by (simp add: nth_append)
  moreover have "firsts ! length made = Submit (Some (rs ! length made))"
    using short by (simp add: firsts_def)
  ultimately have h0: "todo w ! 0 = Submit (Some (rs ! length made))"
    using split by simp
  from split short have "todo w \<noteq> []"
    by (auto dest: arg_cong [where f = length])
  then obtain c cs where t: "todo w = c # cs"
    by (cases "todo w") auto
  with h0 have "c = Submit (Some (rs ! length made))" by simp
  with nj t show ?thesis
    by (simp add: turn_step_def caller_step_def submit_def put_def)
qed

lemma caller_turns_progress:
  "caller_inv (map (\<lambda>r. Submit (Some r)) rs @ others) w \<Longrightarrow>
   min (length rs) (length (submitted w) + k)
     \<le> length (submitted (run h (replicate k Caller) w))"
proof (induction k arbitrary: w)
  case 0
  then show ?case by simp
next
  case (Suc k)
  let ?w = "turn_step h Caller w"
  have inv: "caller_inv (map (\<lambda>r. Submit (Some r)) rs @ others) ?w"
    using Suc.prems by (rule caller_inv_turn_step)
  show ?case
  proof (cases "length (submitted w) < length rs")
    case True
    from caller_turn_progress [OF Suc.prems True, of h] Suc.IH [OF inv]
    show ?thesis by simp
  next
    case False
    with turn_step_grows [of w h Caller] Suc.IH [OF inv]
    show ?thesis by simp
  qed
qed

text \<open>While requests of \<open>rs\<close> are still to take and none of them raises, a turn of
  the consumer takes one.\<close>

lemma consumer_turn_progress:
  assumes inv: "consumer_inv h s0 w"
    and ok: "process_all h rs s0 = Inr s1"
    and put: "prefix (map Some rs) (submitted w)"
    and less: "length (consumed w) < length rs"
  shows "length (consumed (turn_step h Consumer w)) = Suc (length (consumed w))"
proof -
  from inv have sub: "submitted w = consumed w @ requests w"
    by (simp add: consumer_inv_def)
  then have "prefix (consumed w) (submitted w)" by simp
  with put less have "prefix (consumed w) (map Some rs)"
    by (metis length_map less_imp_le_nat prefix_length_prefix)
  then have "consumed w = map Some (take (length (consumed w)) rs)"
    by (metis append_eq_conv_conj prefix_def take_map)
  from running_while_requests [OF inv ok this] have run: "thread w = Running" .
  from put have "length rs \<le> length (submitted w)"
    by (metis length_map prefix_length_le)
  with sub less have "requests w \<noteq> []" by auto
  then obtain x q where q: "requests w = x # q"
    by (cases "requests w") auto
  from run q show ?thesis
    by (cases x)
       (auto simp: turn_step_def run_iteration_def task_done_def Let_def
             split: sum.splits prod.splits)
qed

lemma consumer_turns_progress:
  assumes ok: "process_all h rs s0 = Inr s1"
  shows "consumer_inv h s0 w \<Longrightarrow> prefix (map Some rs) (submitted w) \<Longrightarrow>
         min (length rs) (length (consumed w) + k)
           \<le> length (consumed (run h (replicate k Consumer) w))"
proof (induction k arbitrary: w)
  case 0
  then show ?case by simp
next
  case (Suc k)
  let ?w = "turn_step h Consumer w"
  have inv: "consumer_inv h s0 ?w"
    using Suc.prems(1) by (rule consumer_inv_turn_step)
  have put: "prefix (map Some rs) (submitted ?w)"
    using Suc.prems(2) by (simp add: consumer_turn_keeps_submitted)
  show ?case
  proof (cases "length (consumed w) < length rs")
    case True
    from consumer_turn_progress [OF Suc.prems(1) ok Suc.prems(2) True] Suc.IH [OF inv put]
    show ?thesis by simp
  next
    case False
    with turn_step_grows [of w h Consumer] Suc.IH [OF inv put]
    show ?thesis by simp
  qed
qed

text \<open>
  Requests submitted first, none of which raises, all reach \<open>process\<close> once the caller
  and then the consumer have had a turn for each of them.
\<close>

lemma requests_reach_process:
  assumes ci: "consumer_inv h s0 w"
    and ki: "caller_inv (map (\<lambda>r. Submit (Some r)) rs @ others) w"
    and ok: "process_all h rs s0 = Inr s1"
  shows "prefix (map Some rs)
           (consumed (run h (replicate (length rs) Caller @ replicate (length rs) Consumer) w))"
proof -
  let ?calls = "map (\<lambda>r. Submit (Some r)) rs @ others"
  let ?u = "run h (replicate (length rs) Caller) w"
  let ?v = "run h (replicate (length rs) Consumer) ?u"
  have items: "map item_of ?calls = map Some rs @ map item_of others"
    by (simp add: comp_def)
  have ciu: "consumer_inv h s0 ?u" and kiu: "caller_inv ?calls ?u"
    using ci ki by (auto intro: consumer_inv_run caller_inv_run)
  have civ: "consumer_inv h s0 ?v" and kiv: "caller_inv ?calls ?v"
    using ciu kiu by (auto intro: consumer_inv_run caller_inv_run)
  from caller_turns_progress [OF ki, of "length rs" h]
  have "length rs \<le> length (submitted ?u)" by simp
  moreover from kiu have "prefix (submitted ?u) (map item_of ?calls)"
    by (auto simp: caller_inv_def prefix_def)
  ultimately have put: "prefix (map Some rs) (submitted ?u)"
    unfolding items by (metis length_map prefix_length_prefix prefixI)
  from consumer_turns_progress [OF ok ciu put, of "length rs"]
  have "length rs \<le> length (consumed ?v)" by simp
  moreover from consumed_prefix_calls [OF civ kiv]
  have "prefix (consumed ?v) (map Some rs @ map item_of others)"
    unfolding items .
  ultimately have "prefix (map Some rs) (consumed ?v)"
    by (metis length_map prefix_length_prefix prefixI)
  then show ?thesis by (simp add: run_append)
qed

text \<open>What the consumer is once it has taken the requests \<open>rs\<close> and a \<open>None\<close>.\<close>

lemma replay_shutdown:
  assumes "process_all h rs s0 = Inr s1"
  shows "replay h (map Some rs @ [None]) s0
       = (case shutdown h s1 of Inl (e, s) \<Rightarrow> (Died e, s) | Inr s \<Rightarrow> (Finished, s))"
  using replay_append [OF replay_map_Some [OF assms], of "[None]"] by simp

lemma consumed_None_processed:
  assumes inv: "consumer_inv h s0 w"
    and c: "consumed w = map Some rs @ [None]"
  shows "\<exists>s1. process_all h rs s0 = Inr s1
     \<and> (thread w, self w)
         = (case shutdown h s1 of Inl (e, s) \<Rightarrow> (Died e, s) | Inr s \<Rightarrow> (Finished, s))"
proof -
  from inv c have "fst (replay h (map Some rs) s0) = Running"
    by (simp add: consumer_inv_def)
  then obtain s1 where r: "replay h (map Some rs) s0 = (Running, s1)"
    by (metis prod.collapse)
  from replay_running [OF r] have ok: "process_all h rs s0 = Inr s1"
    by (simp add: somes_map_Some)
  from inv c have "replay h (map Some rs @ [None]) s0 = (thread w, self w)"
    by (simp add: consumer_inv_def)
  with replay_shutdown [OF ok] ok show ?thesis by auto
qed

section \<open>Worker theorems\<close>

text \<open>
  C2, amended. In every world the scheduler can reach, however long it delays the
  consumer: the requests \<open>process\<close> has been called with are an initial part of the
  requests submitted, in the order of submission; they are the requests among the items
  taken from the queue; the thread and the attributes are what \<open>process\<close> and
  \<open>shutdown\<close> have made of those items, one after the other; and no item is dropped,
  the items whose call has been made being those the consumer has taken followed by
  those still in the queue. When the calls begin with the submission of the requests
  \<open>rs\<close>, before any \<open>None\<close> and any \<open>close\<close>, and \<open>process\<close> raises on none
  of them, then from any world reached, once the caller and then the consumer have had a
  turn for each of them, \<open>process\<close> has been called with all of \<open>rs\<close> first and in
  order, each on the attributes the one before left; and with exactly \<open>rs\<close>, the thread
  still running, when there is no other call.
\<close>

theorem fifo_order_nothing_dropped:
  assumes w: "w = run h ts (init s0 calls)"
  shows "prefix (observed w) (somes (map item_of calls))
       \<and> observed w = somes (consumed w)
       \<and> replay h (consumed w) s0 = (thread w, self w)
       \<and> map item_of (returned w) @ (if joining w then [None] else []) = consumed w @ requests w
       \<and> (calls = map (\<lambda>r. Submit (Some r)) rs @ others \<and> process_all h rs s0 = Inr s1 \<longrightarrow>
            (\<exists>zs. consumed (run h (replicate (length rs) Caller @ replicate (length rs) Consumer) w)
                     = map Some rs @ zs
                 \<and> observed (run h (replicate (length rs) Caller @ replicate (length rs) Consumer) w)
                     = rs @ somes zs
                 \<and> (thread (run h (replicate (length rs) Caller @ replicate (length rs) Consumer) w),
                     self (run h (replicate (length rs) Caller @ replicate (length rs) Consumer) w))
                     = replay h zs s1
                 \<and> (others = [] \<longrightarrow> zs = [])))"
proof -
  have ci: "consumer_inv h s0 w" and ki: "caller_inv calls w"
    unfolding w by (rule consumer_inv_reach, rule caller_inv_reach)
  have order: "prefix (observed w) (somes (map item_of calls))"
    using somes_prefix [OF consumed_prefix_calls [OF ci ki]] ci
    by (simp add: consumer_inv_def)
  have seen: "observed w = somes (consumed w)"
    and made: "replay h (consumed w) s0 = (thread w, self w)"
    using ci by (simp_all add: consumer_inv_def)
  have kept: "map item_of (returned w) @ (if joining w then [None] else []) = consumed w @ requests w"
    using ci ki by (simp add: consumer_inv_def caller_inv_def)
  have all: "\<exists>zs. consumed (run h (replicate (length rs) Caller @ replicate (length rs) Consumer) w)
                     = map Some rs @ zs
                 \<and> observed (run h (replicate (length rs) Caller @ replicate (length rs) Consumer) w)
                     = rs @ somes zs
                 \<and> (thread (run h (replicate (length rs) Caller @ replicate (length rs) Consumer) w),
                     self (run h (replicate (length rs) Caller @ replicate (length rs) Consumer) w))
                     = replay h zs s1
                 \<and> (others = [] \<longrightarrow> zs = [])"
    if c: "calls = map (\<lambda>r. Submit (Some r)) rs @ others" and ok: "process_all h rs s0 = Inr s1"
  proof -
    define v where "v = run h (replicate (length rs) Caller @ replicate (length rs) Consumer) w"
    have civ: "consumer_inv h s0 v" and kiv: "caller_inv calls v"
      unfolding v_def using ci ki by (auto intro: consumer_inv_run caller_inv_run)
    from requests_reach_process [OF ci ki [unfolded c] ok]
    obtain zs where zs: "consumed v = map Some rs @ zs"
      by (auto simp: v_def prefix_def)
    from civ zs have ob: "observed v = rs @ somes zs"
      by (simp add: consumer_inv_def somes_append somes_map_Some)
    from civ zs have "replay h (map Some rs @ zs) s0 = (thread v, self v)"
      by (simp add: consumer_inv_def)
    with replay_append [OF replay_map_Some [OF ok], of zs]
    have st: "(thread v, self v) = replay h zs s1"
      by simp
    have "zs = []" if "others = []"
    proof -
      from consumed_prefix_calls [OF civ kiv] c that
      have "prefix (map Some rs @ zs) (map Some rs)"
        by (simp add: zs comp_def)
      then show ?thesis by (simp add: prefix_def)
    qed
    with zs ob st show ?thesis unfolding v_def by blast
  qed
  from order seen made kept all show ?thesis by blast
qed

text \<open>
  The three requests are all submitted before the consumer moves; none is lost, and the
  log the hook keeps shows them processed in order.
\<close>

theorem fifo_order_witness:
  "process_all logging_hooks [1, 2, 3] [] = Inr [Some 1, Some 2, Some 3]
   \<and> requests backlog_world = [Some 1, Some 2, Some 3]
   \<and> observed backlog_world = [] \<and> self backlog_world = []
   \<and> observed (run logging_hooks [Caller, Caller, Caller, Consumer, Consumer, Consumer]
        backlog_world) = [1, 2, 3]
   \<and> self (run logging_hooks [Caller, Caller, Caller, Consumer, Consumer, Consumer]
        backlog_world) = [Some 1, Some 2, Some 3]
   \<and> thread (run logging_hooks [Caller, Caller, Caller, Consumer, Consumer, Consumer]
        backlog_world) = Running"
proof -
  define v where
    "v = run logging_hooks [Caller, Caller, Caller, Consumer, Consumer, Consumer] backlog_world"
  have w: "backlog_world =
      run logging_hooks [Caller, Caller, Caller]
        (init [] [Submit (Some 1), Submit (Some 2), Submit (Some 3)])"
    by (simp add: backlog_world_def)
  have c: "[Submit (Some 1), Submit (Some 2), Submit (Some 3)]
      = map (\<lambda>r. Submit (Some r)) [1, 2, 3 :: nat] @ []"
    by simp
  have ok: "process_all logging_hooks [1, 2, 3] [] = Inr [Some 1, Some 2, Some 3]"
    by (simp add: logging_hooks_def)
  have sched: "replicate (length [1, 2, 3 :: nat]) Caller @ replicate (length [1, 2, 3 :: nat]) Consumer
      = [Caller, Caller, Caller, Consumer, Consumer, Consumer]"
    by (simp add: numeral_3_eq_3)
  from fifo_order_nothing_dropped [OF w, of "[1, 2, 3]" "[]" "[Some 1, Some 2, Some 3]"] c ok
  obtain zs where "observed v = [1, 2, 3] @ somes zs"
    and "(thread v, self v) = replay logging_hooks zs [Some 1, Some 2, Some 3]"
    and "zs = []"
    unfolding sched v_def by blast
  then have "observed v = [1, 2, 3] \<and> self v = [Some 1, Some 2, Some 3] \<and> thread v = Running"
    by simp
  moreover have "requests backlog_world = [Some 1, Some 2, Some 3]
      \<and> observed backlog_world = [] \<and> self backlog_world = []"
    by (simp add: backlog_world_def logging_hooks_def init_def turn_step_def
        caller_step_def run_iteration_def put_def submit_def task_done_def)
  ultimately show ?thesis using ok unfolding v_def by simp
qed

text \<open>
  C2 as stated fails when \<open>process\<close> raises and when a \<open>None\<close> is among the values
  submitted. Where \<open>process\<close> raises on the first of two requests, the second one stays
  in the queue and never reaches \<open>process\<close>, whatever turns follow. And on a service
  that raises nothing, the request submitted after \<open>submit(None)\<close> stays in the queue.
\<close>

theorem fifo_order_counterexample:
  "returned stalled_world = [Submit (Some 0), Submit (Some 2)]
   \<and> observed stalled_world = [0]
   \<and> requests stalled_world = [Some 2]
   \<and> thread stalled_world = Died (OtherError ''device'')
   \<and> observed (run failing_hooks [Consumer, Caller, Consumer, Consumer] stalled_world) = [0]
   \<and> returned ended_None_world = [Submit (Some 1), Submit None, Submit (Some 2)]
   \<and> observed ended_None_world = [1]
   \<and> requests ended_None_world = [Some 2]
   \<and> observed (run logging_hooks [Consumer, Caller, Consumer, Consumer] ended_None_world) = [1]"
  by (simp add: stalled_world_def ended_None_world_def None_calls_def failing_hooks_def
      logging_hooks_def init_def turn_step_def caller_step_def run_iteration_def put_def
      submit_def task_done_def)




text \<open>
  C3. When \<open>process\<close> raises on the request at the head of the queue, nothing catches
  the error: the thread dies of it, without \<open>task_done\<close> and without \<open>shutdown\<close>.
  From then on, under every schedule, the thread stays dead, the consumer takes no further
  step, no further request is processed, the requests that were queued stay in the queue,
  and \<open>submit\<close> still returns normally, its request joining the queue.
\<close>

theorem process_error_kills_consumer:
  assumes run: "thread w = Running"
    and q: "requests w = Some r # queued"
    and raised: "process h r (self w) = Inl (e, s')"
  shows "\<exists>w'. run_iteration h w = Some w'
           \<and> thread w' = Died e \<and> observed w' = observed w @ [r] \<and> requests w' = queued
           \<and> shutdowns w' = shutdowns w \<and> unfinished_tasks w' = unfinished_tasks w
           \<and> (\<forall>ts. thread (run h ts w') = Died e
                  \<and> observed (run h ts w') = observed w @ [r]
                  \<and> shutdowns (run h ts w') = shutdowns w
                  \<and> prefix queued (requests (run h ts w'))
                  \<and> run_iteration h (run h ts w') = None
                  \<and> (\<forall>x. requests (submit x (run h ts w')) = requests (run h ts w') @ [x]
                         \<and> thread (submit x (run h ts w')) = Died e))"
proof -
  let ?w = "w\<lparr> requests := queued, consumed := consumed w @ [Some r], self := s',
              observed := observed w @ [r], thread := Died e \<rparr>"
  from assms have step: "run_iteration h w = Some ?w"
    by (simp add: run_iteration_def)
  have ended: "thread ?w \<noteq> Running" by simp
  have "thread (run h ts ?w) = Died e \<and> observed (run h ts ?w) = observed w @ [r]
      \<and> shutdowns (run h ts ?w) = shutdowns w \<and> prefix queued (requests (run h ts ?w))
      \<and> run_iteration h (run h ts ?w) = None
      \<and> (\<forall>x. requests (submit x (run h ts ?w)) = requests (run h ts ?w) @ [x]
             \<and> thread (submit x (run h ts ?w)) = Died e)" for ts
    using run_ended [OF ended, of h ts]
    by (simp add: run_iteration_def submit_def put_def)
  with step show ?thesis by simp
qed

theorem process_error_witness:
  "thread doomed_world = Running
   \<and> requests doomed_world = [Some 0, Some 2]
   \<and> process failing_hooks 0 (self doomed_world) = Inl (OtherError ''device'', ())
   \<and> (\<exists>w'. run_iteration failing_hooks doomed_world = Some w'
          \<and> thread w' = Died (OtherError ''device'')
          \<and> observed w' = [0] \<and> requests w' = [Some 2]
          \<and> observed (run failing_hooks [Caller, Consumer, Consumer, Caller] w') = [0]
          \<and> prefix [Some 2] (requests (run failing_hooks [Caller, Consumer, Consumer, Caller] w')))"
proof -
  have run: "thread doomed_world = Running"
    and q: "requests doomed_world = [Some 0, Some 2]"
    and raised: "process failing_hooks 0 (self doomed_world) = Inl (OtherError ''device'', ())"
    and seen: "observed doomed_world = []"
    by (simp_all add: doomed_world_def failing_calls_def plain_hooks_def failing_hooks_def Service_hooks_def init_def turn_step_def
        caller_step_def run_iteration_def put_def submit_def task_done_def)
  from process_error_kills_consumer [OF run q raised] seen
  obtain w' where "run_iteration failing_hooks doomed_world = Some w'"
    and "thread w' = Died (OtherError ''device'')"
    and "observed w' = [0]" and "requests w' = [Some 2]"
    and "\<forall>ts. observed (run failing_hooks ts w') = [0]
            \<and> prefix [Some 2] (requests (run failing_hooks ts w'))"
    by auto
  with run q raised show ?thesis by blast
qed

text \<open>
  C10, amended. \<open>submit(None)\<close> is the \<open>put(None)\<close> that \<open>close\<close> starts with, and
  it returns at once, whether or not the thread still runs: the caller does not wait.
  Let \<open>rs\<close> be the requests submitted before the first \<open>None\<close> put on the queue,
  by \<open>submit\<close> or by \<open>close\<close> alike. Then \<open>process\<close> is never called with
  anything but an initial part of \<open>rs\<close>: nothing put after that \<open>None\<close> is ever
  processed. Once the consumer has taken the \<open>None\<close> it has processed all of \<open>rs\<close>,
  has called \<open>shutdown\<close> once, on the attributes they left, and has ended with what
  \<open>shutdown\<close> made of them, for good. And when \<open>process\<close> raises on none of
  \<open>rs\<close>, the consumer does take the \<open>None\<close> once it is put, within one turn for
  each item of the queue.
\<close>

theorem submit_None_ends_consumer:
  assumes w: "w = run h ts (init s0 calls)"
  shows "submit None w = put None w
       \<and> (\<not> joining w \<and> todo w = Submit None # cs \<longrightarrow>
            (\<exists>v. caller_step w = Some v \<and> \<not> joining v \<and> thread v = thread w
                \<and> returned v = returned w @ [Submit None] \<and> todo v = cs))
       \<and> (map item_of calls = map Some rs @ None # later \<longrightarrow>
            prefix (observed w) rs
          \<and> (None \<in> set (consumed w) \<longrightarrow>
               consumed w = map Some rs @ [None] \<and> observed w = rs \<and> shutdowns w = 1
             \<and> thread w \<noteq> Running
             \<and> (\<exists>s2. process_all h rs s0 = Inr s2
                    \<and> (thread w, self w)
                        = (case shutdown h s2 of
                             Inl (e, s) \<Rightarrow> (Died e, s) | Inr s \<Rightarrow> (Finished, s)))
             \<and> (\<forall>us. thread (run h us w) = thread w \<and> self (run h us w) = self w
                    \<and> observed (run h us w) = rs \<and> shutdowns (run h us w) = 1))
          \<and> (process_all h rs s0 = Inr s1 \<and> None \<in> set (submitted w) \<longrightarrow>
               None \<in> set (consumed (run h (replicate (length (requests w)) Consumer) w))
             \<and> observed (run h (replicate (length (requests w)) Consumer) w) = rs
             \<and> shutdowns (run h (replicate (length (requests w)) Consumer) w) = 1
             \<and> (thread (run h (replicate (length (requests w)) Consumer) w),
                 self (run h (replicate (length (requests w)) Consumer) w))
                 = (case shutdown h s1 of
                      Inl (e, s) \<Rightarrow> (Died e, s) | Inr s \<Rightarrow> (Finished, s))))"
proof -
  have ci: "consumer_inv h s0 w" and ki: "caller_inv calls w"
    unfolding w by (rule consumer_inv_reach, rule caller_inv_reach)
  have same: "submit None w = put None w"
    by (simp add: submit_def)
  have free: "\<exists>v. caller_step w = Some v \<and> \<not> joining v \<and> thread v = thread w
                \<and> returned v = returned w @ [Submit None] \<and> todo v = cs"
    if "\<not> joining w" "todo w = Submit None # cs"
    using that by (simp add: caller_step_def submit_def put_def)
  have never: "prefix (observed w) rs"
    if c: "map item_of calls = map Some rs @ None # later"
    using ci consumed_prefix_calls [OF ci ki, unfolded c] by (rule observed_prefix_before_None)
  have taken: "consumed w = map Some rs @ [None] \<and> observed w = rs \<and> shutdowns w = 1
             \<and> thread w \<noteq> Running
             \<and> (\<exists>s2. process_all h rs s0 = Inr s2
                    \<and> (thread w, self w)
                        = (case shutdown h s2 of
                             Inl (e, s) \<Rightarrow> (Died e, s) | Inr s \<Rightarrow> (Finished, s)))
             \<and> (\<forall>us. thread (run h us w) = thread w \<and> self (run h us w) = self w
                    \<and> observed (run h us w) = rs \<and> shutdowns (run h us w) = 1)"
    if c: "map item_of calls = map Some rs @ None # later" and non: "None \<in> set (consumed w)"
  proof -
    have pre: "prefix (consumed w) (map Some rs @ None # later)"
      using consumed_prefix_calls [OF ci ki] unfolding c .
    from consumed_None [OF ci pre non] have cw: "consumed w = map Some rs @ [None]" .
    from consumed_None_ended [OF ci pre non]
    have e: "thread w \<noteq> Running" and s: "shutdowns w = 1" and ob: "observed w = rs"
      by auto
    from cw e s ob consumed_None_processed [OF ci cw] run_ended [OF e, of h]
    show ?thesis by simp
  qed
  have live: "None \<in> set (consumed (run h (replicate (length (requests w)) Consumer) w))
             \<and> observed (run h (replicate (length (requests w)) Consumer) w) = rs
             \<and> shutdowns (run h (replicate (length (requests w)) Consumer) w) = 1
             \<and> (thread (run h (replicate (length (requests w)) Consumer) w),
                 self (run h (replicate (length (requests w)) Consumer) w))
                 = (case shutdown h s1 of
                      Inl (e, s) \<Rightarrow> (Died e, s) | Inr s \<Rightarrow> (Finished, s))"
    if c: "map item_of calls = map Some rs @ None # later"
      and ok: "process_all h rs s0 = Inr s1" and sub: "None \<in> set (submitted w)"
  proof -
    define v where "v = run h (replicate (length (requests w)) Consumer) w"
    have civ: "consumer_inv h s0 v" and kiv: "caller_inv calls v"
      unfolding v_def using ci ki by (auto intro: consumer_inv_run caller_inv_run)
    have prev: "prefix (consumed v) (map Some rs @ None # later)"
      using consumed_prefix_calls [OF civ kiv] unfolding c .
    have ended: "thread v \<noteq> Running"
    proof (cases "thread w = Running")
      case False
      then show ?thesis unfolding v_def using run_ended [of w h] by simp
    next
      case True
      from running_no_None [OF ci True] sub ci have "None \<in> set (requests w)"
        by (auto simp: consumer_inv_def)
      then show ?thesis unfolding v_def by (rule consumer_turns_end) simp
    qed
    from ended_consumed_None [OF civ prev ok ended] have non: "None \<in> set (consumed v)" .
    from consumed_None [OF civ prev non] have cv: "consumed v = map Some rs @ [None]" .
    from civ cv replay_shutdown [OF ok]
    have "(thread v, self v)
        = (case shutdown h s1 of Inl (e, s) \<Rightarrow> (Died e, s) | Inr s \<Rightarrow> (Finished, s))"
      by (simp add: consumer_inv_def)
    with non consumed_None_ended [OF civ prev non] show ?thesis
      unfolding v_def by simp
  qed
  from same free never taken live show ?thesis by blast
qed

text \<open>
  After the three calls have returned the thread is still running: the caller was not
  held until the consumer ended. Three turns of the consumer later the log the hooks
  keep holds the first request and the mark of \<open>shutdown\<close>; the request submitted
  after the \<open>None\<close> stays in the queue.
\<close>

theorem submit_None_witness:
  "\<not> joining before_None_world \<and> todo before_None_world = [Submit None, Submit (Some 2)]
   \<and> (\<exists>v. caller_step before_None_world = Some v \<and> \<not> joining v
          \<and> thread v = Running \<and> todo v = [Submit (Some 2)])
   \<and> map item_of None_calls = map Some [1] @ None # [Some 2]
   \<and> process_all logging_hooks [1] [] = Inr [Some 1]
   \<and> Submit None \<in> set (returned after_None_world)
   \<and> None \<in> set (submitted after_None_world)
   \<and> thread after_None_world = Running
   \<and> shutdowns (run logging_hooks [Consumer, Consumer, Consumer] after_None_world) = 1
   \<and> observed (run logging_hooks [Consumer, Consumer, Consumer] after_None_world) = [1]
   \<and> self (run logging_hooks [Consumer, Consumer, Consumer] after_None_world) = [Some 1, None]
   \<and> thread (run logging_hooks [Consumer, Consumer, Consumer] after_None_world) = Finished
   \<and> None \<in> set (consumed ended_None_world)
   \<and> self ended_None_world = [Some 1, None]
   \<and> requests ended_None_world = [Some 2]
   \<and> observed (run logging_hooks [Consumer, Caller, Consumer] ended_None_world) = [1]"
proof -
  have c: "map item_of None_calls = map Some [1] @ None # [Some 2]"
    by (simp add: None_calls_def)
  have ok: "process_all logging_hooks [1] [] = Inr [Some 1]"
    by (simp add: logging_hooks_def)
  have a: "before_None_world = run logging_hooks [Caller] (init [] None_calls)"
    by (simp add: before_None_world_def)
  have b: "after_None_world = run logging_hooks [Caller, Caller, Caller] (init [] None_calls)"
    by (simp add: after_None_world_def)
  have d: "ended_None_world =
      run logging_hooks [Caller, Caller, Caller, Consumer, Consumer, Consumer] (init [] None_calls)"
    by (simp add: ended_None_world_def)
  have fa: "\<not> joining before_None_world \<and> todo before_None_world = [Submit None, Submit (Some 2)]
      \<and> thread before_None_world = Running"
    by (simp add: before_None_world_def None_calls_def logging_hooks_def init_def turn_step_def
        caller_step_def run_iteration_def put_def submit_def task_done_def)
  have fb: "Submit None \<in> set (returned after_None_world)
      \<and> None \<in> set (submitted after_None_world) \<and> thread after_None_world = Running
      \<and> length (requests after_None_world) = 3"
    by (simp add: after_None_world_def None_calls_def logging_hooks_def init_def turn_step_def
        caller_step_def run_iteration_def put_def submit_def task_done_def)
  have fd: "None \<in> set (consumed ended_None_world) \<and> requests ended_None_world = [Some 2]"
    by (simp add: ended_None_world_def None_calls_def logging_hooks_def init_def turn_step_def
        caller_step_def run_iteration_def put_def submit_def task_done_def)
  from submit_None_ends_consumer [OF a, of "[Submit (Some 2)]" "[1]" "[Some 2]" "[Some 1]"] fa
  obtain v where "caller_step before_None_world = Some v" and "\<not> joining v"
    and "thread v = thread before_None_world" and "todo v = [Submit (Some 2)]"
    by blast
  with fa have "\<exists>v. caller_step before_None_world = Some v \<and> \<not> joining v
          \<and> thread v = Running \<and> todo v = [Submit (Some 2)]"
    by simp
  moreover from submit_None_ends_consumer [OF b, of cs "[1]" "[Some 2]" "[Some 1]"] c ok fb
  have "observed (run logging_hooks (replicate 3 Consumer) after_None_world) = [1]
      \<and> shutdowns (run logging_hooks (replicate 3 Consumer) after_None_world) = 1
      \<and> (thread (run logging_hooks (replicate 3 Consumer) after_None_world),
          self (run logging_hooks (replicate 3 Consumer) after_None_world))
          = (case shutdown logging_hooks [Some 1] of
               Inl (e, s) \<Rightarrow> (Died e, s) | Inr s \<Rightarrow> (Finished, s))"
    by simp
  then have "observed (run logging_hooks (replicate 3 Consumer) after_None_world) = [1]
      \<and> shutdowns (run logging_hooks (replicate 3 Consumer) after_None_world) = 1
      \<and> thread (run logging_hooks (replicate 3 Consumer) after_None_world) = Finished
      \<and> self (run logging_hooks (replicate 3 Consumer) after_None_world) = [Some 1, None]"
    by (simp add: logging_hooks_def)
  moreover from submit_None_ends_consumer [OF d, of cs "[1]" "[Some 2]" "[Some 1]"] c fd
  obtain s2 where "process_all logging_hooks [1] [] = Inr s2"
    and "(thread ended_None_world, self ended_None_world)
        = (case shutdown logging_hooks s2 of
             Inl (e, s) \<Rightarrow> (Died e, s) | Inr s \<Rightarrow> (Finished, s))"
    and "observed (run logging_hooks [Consumer, Caller, Consumer] ended_None_world) = [1]"
    by blast
  then have "self ended_None_world = [Some 1, None]
      \<and> observed (run logging_hooks [Consumer, Caller, Consumer] ended_None_world) = [1]"
    by (simp add: logging_hooks_def)
  ultimately show ?thesis using c ok fa fb fd by (simp add: numeral_3_eq_3)
qed

text \<open>
  C10 as stated fails when \<open>process\<close> raises before the \<open>None\<close> is reached: the
  call of \<open>submit(None)\<close> has returned, the thread has died of the error, the \<open>None\<close>
  stays in the queue whatever turns follow, and \<open>shutdown\<close> is never called.
\<close>

theorem submit_None_counterexample:
  "returned unreached_None_world = [Submit (Some 0), Submit None]
   \<and> thread unreached_None_world = Died (OtherError ''device'')
   \<and> consumed unreached_None_world = [Some 0]
   \<and> requests unreached_None_world = [None]
   \<and> shutdowns unreached_None_world = 0
   \<and> shutdowns (run failing_hooks [Consumer, Caller, Consumer, Consumer] unreached_None_world) = 0
   \<and> requests (run failing_hooks [Consumer, Caller, Consumer, Consumer] unreached_None_world)
       = [None]"
  by (simp add: unreached_None_world_def failing_hooks_def init_def turn_step_def
      caller_step_def run_iteration_def put_def submit_def task_done_def)

section \<open>Facts about the Photographer\<close>

lemma draw_rectangle_3:
  "\<exists>rects. \<forall>draw. draw_rectangle draw x0 y0 x1 y1 3 fill = Inr (draw @ rects)"
  by (simp add: draw_rectangle_def)

lemma draw_face_appends:
  "draw_face env draw f scale_x scale_y = Inr (draw @ face_drawings env f scale_x scale_y)"
proof -
  obtain x y width height where
    s: "scale_bounding_box (bounding_box f) scale_x scale_y = (x, y, width, height)"
    by (cases "scale_bounding_box (bounding_box f) scale_x scale_y") auto
  obtain r1 where
    r1: "\<And>d. draw_rectangle d x y (x + width) (y + height) 3 False = Inr (d @ r1)"
    using draw_rectangle_3 by blast
  obtain r2 where
    r2: "\<And>d. draw_rectangle d x (y + height) (x + width)
           (y + height + 3 + text_height env + 3) 3 True = Inr (d @ r2)"
    using draw_rectangle_3 by blast
  have any: "draw_face env d f scale_x scale_y
      = Inr ((d @ r1) @ r2 @ [Label (x + 1 + 3, y + height + 1 + 3) (joy_score f)])" for d
    unfolding draw_face_def Let_def s prod.case r1 r2 sum.case by simp
  have "face_drawings env f scale_x scale_y
      = r1 @ r2 @ [Label (x + 1 + 3, y + height + 1 + 3) (joy_score f)]"
    unfolding face_drawings_def any [of "[]"] by simp
  with any [of draw] show ?thesis by simp
qed

lemma draw_face_returns: "\<exists>draw'. draw_face env draw f scale_x scale_y = Inr draw'"
  using draw_face_appends by blast

lemma crop_upright: "upright box \<Longrightarrow> crop img box = Inr (Crop img box)"
  by (cases box) (auto simp: crop_def)

lemma save_has_pixels:
  "has_pixels box \<Longrightarrow>
   save filename (Crop img box) files = Inr (files @ [(filename, Crop img box)])"
  by (auto simp: save_def has_pixels_def split: prod.splits)

lemma regions_cut_Nil: "regions_cut env img [] sx sy = []"
  by (simp add: regions_cut_def)

lemma regions_cut_Cons:
  "regions_cut env img (f # fs) sx sy
     = Crop img (bounding_extent_to_corners
                   (scale_bounding_box (bounding_box f) sx sy) (image_size img))
       # regions_cut env (img\<lparr> drawn := drawn img @ face_drawings env f sx sy \<rparr>) fs sx sy"
  unfolding regions_cut_def length_Cons map_upt_Suc by simp

lemma length_regions_cut: "length (regions_cut env img fs sx sy) = length fs"
  by (simp add: regions_cut_def)

lemma last_regions_cut:
  assumes "fs \<noteq> []"
  shows "last (regions_cut env img fs sx sy)
     = Crop (img\<lparr> drawn := drawn img
                 @ concat (map (\<lambda>f. face_drawings env f sx sy) (butlast fs)) \<rparr>)
         (bounding_extent_to_corners
            (scale_bounding_box (bounding_box (last fs)) sx sy) (image_size img))"
proof -
  from assms obtain n where n: "length fs = Suc n"
    by (cases fs) auto
  then have "[0 ..< length fs] = [0 ..< n] @ [n]"
    by simp
  then have "last (regions_cut env img fs sx sy)
     = Crop (img\<lparr> drawn := drawn img
                 @ concat (map (\<lambda>f. face_drawings env f sx sy) (take n fs)) \<rparr>)
         (bounding_extent_to_corners
            (scale_bounding_box (bounding_box (fs ! n)) sx sy) (image_size img))"
    by (simp add: regions_cut_def)
  moreover from n have "take n fs = butlast fs"
    by (simp add: butlast_conv_take)
  moreover from n assms have "fs ! n = last fs"
    by (simp add: last_conv_nth)
  ultimately show ?thesis by simp
qed

text \<open>The loop, when \<open>crop\<close> accepts the box of every face.\<close>

lemma crop_faces_result:
  assumes "\<forall>f \<in> set fs. upright (bounding_extent_to_corners
              (scale_bounding_box (bounding_box f) sx sy) (image_size img))"
  shows "crop_faces env fs sx sy img image2 regions
       = Inr (img\<lparr> drawn := drawn img @ concat (map (\<lambda>f. face_drawings env f sx sy) fs) \<rparr>,
              last (image2 # map Some (regions_cut env img fs sx sy)),
              regions @ regions_cut env img fs sx sy)"
  using assms
proof (induction fs arbitrary: img image2 regions)
  case Nil
  show ?case by (simp add: regions_cut_Nil)
next
  case (Cons f fs)
  define box where "box = bounding_extent_to_corners
      (scale_bounding_box (bounding_box f) sx sy) (image_size img)"
  define img1 where "img1 = img\<lparr> drawn := drawn img @ face_drawings env f sx sy \<rparr>"
  have size1: "image_size img1 = image_size img"
    and drawn1: "drawn img1 = drawn img @ face_drawings env f sx sy"
    by (simp_all add: img1_def)
  from Cons.prems have "upright box"
    by (simp add: box_def)
  then have c: "crop img box = Inr (Crop img box)"
    by (rule crop_upright)
  have d: "draw_face env (drawn img) f sx sy = Inr (drawn img @ face_drawings env f sx sy)"
    by (rule draw_face_appends)
  from Cons.prems have "\<forall>g \<in> set fs. upright (bounding_extent_to_corners
              (scale_bounding_box (bounding_box g) sx sy) (image_size img1))"
    by (simp add: size1)
  from Cons.IH [OF this, of "Some (Crop img box)" "regions @ [Crop img box]"]
  have r: "crop_faces env fs sx sy img1 (Some (Crop img box)) (regions @ [Crop img box])
      = Inr (img1\<lparr> drawn := drawn img1 @ concat (map (\<lambda>f. face_drawings env f sx sy) fs) \<rparr>,
             last (Some (Crop img box) # map Some (regions_cut env img1 fs sx sy)),
             (regions @ [Crop img box]) @ regions_cut env img1 fs sx sy)" .
  have step: "crop_faces env (f # fs) sx sy img image2 regions
      = crop_faces env fs sx sy img1 (Some (Crop img box)) (regions @ [Crop img box])"
    unfolding crop_faces.simps Let_def box_def [symmetric] c sum.case d img1_def ..
  have cut: "regions_cut env img (f # fs) sx sy = Crop img box # regions_cut env img1 fs sx sy"
    unfolding regions_cut_Cons box_def img1_def ..
  have img: "img1\<lparr> drawn := drawn img1 @ concat (map (\<lambda>f. face_drawings env f sx sy) fs) \<rparr>
      = img\<lparr> drawn := drawn img @ concat (map (\<lambda>f. face_drawings env f sx sy) (f # fs)) \<rparr>"
    by (simp add: img1_def)
  show ?case
    unfolding step r cut img by simp
qed

text \<open>
  A capture with cached detections, a geometry without a zero dimension and boxes that
  \<open>crop\<close> accepts: the original is written, a region is cut for each face, and the
  last one is handed to \<open>save\<close>.
\<close>

lemma process_shoot_save:
  assumes cached: "faces p = (fs, (width, height))"
    and some: "fs \<noteq> []"
    and wide: "width \<noteq> 0" and high: "height \<noteq> 0"
    and up: "\<forall>f \<in> set fs. upright (face_corners cam (width, height) f)"
  shows "Photographer_process env (Shoot cam) p
      = (case save (make_filename env p (now env) ''cropped'')
                (Crop \<lparr> image_size = resolution cam,
                        drawn = concat (map (\<lambda>f. face_drawings env f
                                    (real (fst (resolution cam)) / width)
                                    (real (snd (resolution cam)) / height))
                                  (butlast fs)) \<rparr>
                      (face_corners cam (width, height) (last fs)))
                (written p @ [(make_filename env p (now env) [],
                               Still \<lparr> image_size = resolution cam, drawn = [] \<rparr>)]) of
           Inl e \<Rightarrow>
             Inl (e, p\<lparr> written := written p
                          @ [(make_filename env p (now env) [],
                              Still \<lparr> image_size = resolution cam, drawn = [] \<rparr>)],
                       crops := crops p
                          @ regions_cut env \<lparr> image_size = resolution cam, drawn = [] \<rparr> fs
                              (real (fst (resolution cam)) / width)
                              (real (snd (resolution cam)) / height) \<rparr>)
         | Inr files \<Rightarrow>
             Inr (p\<lparr> written := files,
                    crops := crops p
                       @ regions_cut env \<lparr> image_size = resolution cam, drawn = [] \<rparr> fs
                           (real (fst (resolution cam)) / width)
                           (real (snd (resolution cam)) / height) \<rparr>))"
proof -
  define img where "img = \<lparr> image_size = resolution cam, drawn = [] \<rparr>"
  define sx where "sx = real (fst (resolution cam)) / width"
  define sy where "sy = real (snd (resolution cam)) / height"
  define p1 where
    "p1 = p\<lparr> written := written p @ [(make_filename env p (now env) [], Still img)] \<rparr>"
  have corner: "bounding_extent_to_corners (scale_bounding_box (bounding_box f) sx sy)
      (image_size img) = face_corners cam (width, height) f" for f
    by (cases "scale_bounding_box (bounding_box f) sx sy")
       (simp add: face_corners_def sx_def sy_def img_def)
  from up have "\<forall>f \<in> set fs. upright (bounding_extent_to_corners
              (scale_bounding_box (bounding_box f) sx sy) (image_size img))"
    by (simp add: corner)
  from crop_faces_result [OF this, of env None "[]"]
  have loop: "crop_faces env fs sx sy img None []
      = Inr (img\<lparr> drawn := drawn img @ concat (map (\<lambda>f. face_drawings env f sx sy) fs) \<rparr>,
             last (None # map Some (regions_cut env img fs sx sy)),
             regions_cut env img fs sx sy)"
    by simp
  from some have ne: "regions_cut env img fs sx sy \<noteq> []"
    using length_regions_cut [of env img fs sx sy] by auto
  then have l: "last (None # map Some (regions_cut env img fs sx sy))
      = Some (last (regions_cut env img fs sx sy))"
    by (simp add: last_map)
  note loop = loop [unfolded l]
  have lastcut: "last (regions_cut env img fs sx sy)
      = Crop (img\<lparr> drawn := concat (map (\<lambda>f. face_drawings env f sx sy) (butlast fs)) \<rparr>)
          (face_corners cam (width, height) (last fs))"
    using last_regions_cut [OF some, of env img sx sy, unfolded corner] by (simp add: img_def)
  have factors: "scale_factors img (width, height) = Inr (sx, sy)"
    using wide high by (simp add: scale_factors_def sx_def sy_def img_def)
  have f1: "faces p1 = (fs, (width, height))"
    using cached by (simp add: p1_def)
  have names: "make_filename env p1 (now env) ''cropped'' = make_filename env p (now env) ''cropped''"
    by (simp add: make_filename_def p1_def)
  have "Photographer_process env (Shoot cam) p
      = (case save (make_filename env p1 (now env) ''cropped'')
                (last (regions_cut env img fs sx sy)) (written p1) of
           Inl e \<Rightarrow> Inl (e, p1\<lparr> crops := crops p1 @ regions_cut env img fs sx sy \<rparr>)
         | Inr files \<Rightarrow>
             Inr (p1\<lparr> crops := crops p1 @ regions_cut env img fs sx sy, written := files \<rparr>))"
    unfolding Photographer_process_def message.case Let_def
      img_def [symmetric] p1_def [symmetric] f1 prod.case
    using some by (simp add: factors loop)
  then show ?thesis
    unfolding lastcut names
    by (simp add: p1_def img_def sx_def sy_def split: sum.splits)
qed

text \<open>The same when the last box holds a pixel: the region is saved.\<close>

lemma process_shoot:
  assumes cached: "faces p = (fs, (width, height))"
    and some: "fs \<noteq> []"
    and wide: "width \<noteq> 0" and high: "height \<noteq> 0"
    and up: "\<forall>f \<in> set fs. upright (face_corners cam (width, height) f)"
    and px: "has_pixels (face_corners cam (width, height) (last fs))"
  shows "Photographer_process env (Shoot cam) p
      = Inr (p\<lparr> written := written p
                   @ [(make_filename env p (now env) [],
                       Still \<lparr> image_size = resolution cam, drawn = [] \<rparr>),
                      (make_filename env p (now env) ''cropped'',
                       Crop \<lparr> image_size = resolution cam,
                              drawn = concat (map (\<lambda>f. face_drawings env f
                                          (real (fst (resolution cam)) / width)
                                          (real (snd (resolution cam)) / height))
                                        (butlast fs)) \<rparr>
                            (face_corners cam (width, height) (last fs)))],
                crops := crops p
                   @ regions_cut env \<lparr> image_size = resolution cam, drawn = [] \<rparr> fs
                       (real (fst (resolution cam)) / width)
                       (real (snd (resolution cam)) / height) \<rparr>)"
  unfolding process_shoot_save [OF cached some wide high up] save_has_pixels [OF px]
  by simp

text \<open>The capture of the end-to-end scenario.\<close>

lemma corners_of_detection:
  "face_corners pi_camera (320, 240) detection = (25.625, 77 / 3, 153.75, 154)"
  by (simp add: face_corners_def pi_camera_def detection_def)


lemma shoot_ready:
  "Photographer_process env (Shoot pi_camera) ready
     = Inr (ready\<lparr> written :=
                     [(make_filename env studio (now env) [], Still still),
                      (make_filename env studio (now env) ''cropped'',
                       Crop still (25.625, 77 / 3, 153.75, 154))],
                   crops := [Crop still (25.625, 77 / 3, 153.75, 154)] \<rparr>)"
proof -
  have c: "faces ready = ([detection], (320, 240))"
    by (simp add: ready_def studio_def)
  have n: "[detection] \<noteq> []" and x: "(320 :: real) \<noteq> 0" and y: "(240 :: real) \<noteq> 0"
    by simp_all
  have up: "\<forall>f \<in> set [detection]. upright (face_corners pi_camera (320, 240) f)"
    by (simp add: corners_of_detection)
  have px: "has_pixels (face_corners pi_camera (320, 240) (last [detection]))"
    by (simp add: corners_of_detection has_pixels_def py_round_def Let_def)
  have names: "make_filename env ready = make_filename env studio"
    by (simp add: fun_eq_iff make_filename_def ready_def)
  have empty: "written ready = []" "crops ready = []"
    by (simp_all add: ready_def studio_def)
  have img: "\<lparr> image_size = resolution pi_camera, drawn = [] \<rparr> = still"
    by (simp add: pi_camera_def still_def)
  have cut: "regions_cut env still [detection] (real (fst (resolution pi_camera)) / 320)
        (real (snd (resolution pi_camera)) / 240)
      = [Crop still (25.625, 77 / 3, 153.75, 154)]"
    unfolding regions_cut_Cons regions_cut_Nil
    using corners_of_detection by (simp add: face_corners_def still_def pi_camera_def)
  show ?thesis
    unfolding process_shoot [OF c n x y up px] names empty img cut
    by (simp add: corners_of_detection img)
qed

section \<open>Photographer theorems\<close>

text \<open>
  C7. The file name is the expansion by \<open>os.path.expanduser\<close> of
  \<open><folder>/<timestamp>[_<suffix>].<format>\<close>, the underscore and the suffix being
  there only when the suffix is not empty; when the folder does not start with a tilde
  that path is the file name itself. With the folder \<open>./captures\<close>, the format
  \<open>jpeg\<close> and the timestamp \<open>2024-01-01_00.00.00\<close> the original is
  \<open>./captures/2024-01-01_00.00.00.jpeg\<close> and the cropped file is
  \<open>./captures/2024-01-01_00.00.00_cropped.jpeg\<close>.
\<close>

theorem make_filename_convention:
  "make_filename env p timestamp sfx
     = expanduser (home env)
         (folder p @ ''/'' @ timestamp @ (if sfx = [] then [] else ''_'' @ sfx) @ ''.'' @ format p)
   \<and> (take 1 (folder p) \<noteq> ''~'' \<longrightarrow>
        make_filename env p timestamp sfx
          = folder p @ ''/'' @ timestamp @ (if sfx = [] then [] else ''_'' @ sfx)
              @ ''.'' @ format p)
   \<and> (folder p = ''./captures'' \<and> format p = ''jpeg'' \<longrightarrow>
        make_filename env p ''2024-01-01_00.00.00'' [] = ''./captures/2024-01-01_00.00.00.jpeg''
      \<and> make_filename env p ''2024-01-01_00.00.00'' ''cropped''
          = ''./captures/2024-01-01_00.00.00_cropped.jpeg'')"
proof -
  have general: "make_filename env p timestamp sfx
     = expanduser (home env)
         (folder p @ ''/'' @ timestamp @ (if sfx = [] then [] else ''_'' @ sfx) @ ''.'' @ format p)"
    by (simp add: make_filename_def)
  have plain: "make_filename env p timestamp sfx
          = folder p @ ''/'' @ timestamp @ (if sfx = [] then [] else ''_'' @ sfx)
              @ ''.'' @ format p"
    if "take 1 (folder p) \<noteq> ''~''"
    using that
    by (cases "folder p") (simp_all add: make_filename_def expanduser_def)
  have example: "make_filename env p ''2024-01-01_00.00.00'' []
          = ''./captures/2024-01-01_00.00.00.jpeg''
      \<and> make_filename env p ''2024-01-01_00.00.00'' ''cropped''
          = ''./captures/2024-01-01_00.00.00_cropped.jpeg''"
    if "folder p = ''./captures''" "format p = ''jpeg''"
    using that by (simp add: make_filename_def expanduser_def)
  from general plain example show ?thesis by blast
qed

theorem make_filename_witness:
  "Photographer_init ''jpeg'' ''./captures'' = Inr studio
   \<and> take 1 (folder studio) \<noteq> ''~''
   \<and> folder studio = ''./captures'' \<and> format studio = ''jpeg''
   \<and> make_filename studio_env studio ''2024-01-01_00.00.00'' ''annotated''
       = ''./captures/2024-01-01_00.00.00_annotated.jpeg''
   \<and> make_filename studio_env studio ''2024-01-01_00.00.00'' []
       = ''./captures/2024-01-01_00.00.00.jpeg''
   \<and> make_filename studio_env studio ''2024-01-01_00.00.00'' ''cropped''
       = ''./captures/2024-01-01_00.00.00_cropped.jpeg''"
proof -
  have built: "Photographer_init ''jpeg'' ''./captures'' = Inr studio"
    by (simp add: Photographer_init_def studio_def)
  have f: "folder studio = ''./captures''" and g: "format studio = ''jpeg''"
    by (simp_all add: studio_def)
  have t: "take 1 (folder studio) \<noteq> ''~''"
    by (simp add: f)
  from make_filename_convention [of studio_env studio "''2024-01-01_00.00.00''" "''annotated''"] t
  have "make_filename studio_env studio ''2024-01-01_00.00.00'' ''annotated''
       = folder studio @ ''/'' @ ''2024-01-01_00.00.00''
           @ (if ''annotated'' = [] then [] else ''_'' @ ''annotated'') @ ''.'' @ format studio"
    by blast
  then have "make_filename studio_env studio ''2024-01-01_00.00.00'' ''annotated''
       = ''./captures/2024-01-01_00.00.00_annotated.jpeg''"
    by (simp add: f g)
  moreover
  from make_filename_convention [of studio_env studio timestamp sfx] f g
  have "make_filename studio_env studio ''2024-01-01_00.00.00'' []
       = ''./captures/2024-01-01_00.00.00.jpeg''
      \<and> make_filename studio_env studio ''2024-01-01_00.00.00'' ''cropped''
       = ''./captures/2024-01-01_00.00.00_cropped.jpeg''"
    by blast
  ultimately show ?thesis using built t f g by blast
qed

text \<open>
  C4, amended. In the end-to-end scenario (one cached detection with the box
  \<open>(10, 10, 50, 50)\<close>, inference geometry \<open>(320, 240)\<close>, capture resolution 820 by 616)
  the scale factors are \<open>(820 / 320, 616 / 240)\<close>, that is \<open>2.5625\<close> and \<open>77 / 30\<close>,
  which is \<open>2.5667\<close> to four decimals; the scaled box is
  \<open>(25.625, 77 / 3, 128.125, 385 / 3)\<close> and the crop corners are
  \<open>(25.625, 77 / 3, 153.75, 154)\<close>; exactly two files are written, the original and one
  cropped file, under two different names. The same holds when the two messages go
  through the worker's queue.
\<close>

theorem end_to_end_capture:
  "scale_factors still (320, 240) = Inr (2.5625, 77 / 30)
   \<and> \<bar>77 / 30 - 2.5667\<bar> < (0.00005 :: real)
   \<and> scale_bounding_box (bounding_box detection) 2.5625 (77 / 30)
       = (25.625, 77 / 3, 128.125, 385 / 3)
   \<and> bounding_extent_to_corners (25.625, 77 / 3, 128.125, 385 / 3) (image_size still)
       = (25.625, 77 / 3, 153.75, 154)
   \<and> Photographer_process env (Faces ([detection], (320, 240))) studio = Inr ready
   \<and> Photographer_process env (Shoot pi_camera) ready
       = Inr (ready\<lparr> written :=
                       [(make_filename env studio (now env) [], Still still),
                        (make_filename env studio (now env) ''cropped'',
                         Crop still (25.625, 77 / 3, 153.75, 154))],
                     crops := [Crop still (25.625, 77 / 3, 153.75, 154)] \<rparr>)
   \<and> self (run (Photographer_hooks env) [Caller, Caller, Consumer, Consumer]
              (init studio [Submit (Some (Faces ([detection], (320, 240)))),
                            Submit (Some (Shoot pi_camera))]))
       = ready\<lparr> written :=
                  [(make_filename env studio (now env) [], Still still),
                   (make_filename env studio (now env) ''cropped'',
                    Crop still (25.625, 77 / 3, 153.75, 154))],
                crops := [Crop still (25.625, 77 / 3, 153.75, 154)] \<rparr>
   \<and> make_filename env studio (now env) [] \<noteq> make_filename env studio (now env) ''cropped''"
proof -
  have factors: "scale_factors still (320, 240) = Inr (2.5625, 77 / 30)"
    by (simp add: scale_factors_def still_def)
  have close: "\<bar>77 / 30 - 2.5667\<bar> < (0.00005 :: real)"
    by simp
  have scaled: "scale_bounding_box (bounding_box detection) 2.5625 (77 / 30)
       = (25.625, 77 / 3, 128.125, 385 / 3)"
    by (simp add: detection_def)
  have corners: "bounding_extent_to_corners (25.625, 77 / 3, 128.125, 385 / 3) (image_size still)
       = (25.625, 77 / 3, 153.75, 154)"
    by simp
  have cache: "Photographer_process env (Faces ([detection], (320, 240))) studio = Inr ready"
    by (simp add: Photographer_process_def ready_def)
  have shoot: "Photographer_process env (Shoot pi_camera) ready
       = Inr (ready\<lparr> written :=
                       [(make_filename env studio (now env) [], Still still),
                        (make_filename env studio (now env) ''cropped'',
                         Crop still (25.625, 77 / 3, 153.75, 154))],
                     crops := [Crop still (25.625, 77 / 3, 153.75, 154)] \<rparr>)"
    by (rule shoot_ready)
  have queue: "self (run (Photographer_hooks env) [Caller, Caller, Consumer, Consumer]
              (init studio [Submit (Some (Faces ([detection], (320, 240)))),
                            Submit (Some (Shoot pi_camera))]))
       = ready\<lparr> written :=
                  [(make_filename env studio (now env) [], Still still),
                   (make_filename env studio (now env) ''cropped'',
                    Crop still (25.625, 77 / 3, 153.75, 154))],
                crops := [Crop still (25.625, 77 / 3, 153.75, 154)] \<rparr>"
    by (simp add: Photographer_hooks_def init_def turn_step_def caller_step_def
          run_iteration_def put_def submit_def task_done_def cache shoot)
  have "length (make_filename env studio (now env) [])
      \<noteq> length (make_filename env studio (now env) ''cropped'')"
    by (simp add: make_filename_def expanduser_def studio_def)
  then have names: "make_filename env studio (now env) []
      \<noteq> make_filename env studio (now env) ''cropped''"
    by auto
  from factors close scaled corners cache shoot queue names show ?thesis
    by blast
qed

text \<open>
  With the clock at \<open>2024-01-01_00.00.00\<close> the two files are
  \<open>./captures/2024-01-01_00.00.00.jpeg\<close> and
  \<open>./captures/2024-01-01_00.00.00_cropped.jpeg\<close>.
\<close>

theorem end_to_end_witness:
  "Photographer_process studio_env (Shoot pi_camera) ready
     = Inr (ready\<lparr> written :=
                     [(''./captures/2024-01-01_00.00.00.jpeg'', Still still),
                      (''./captures/2024-01-01_00.00.00_cropped.jpeg'',
                       Crop still (25.625, 77 / 3, 153.75, 154))],
                   crops := [Crop still (25.625, 77 / 3, 153.75, 154)] \<rparr>)"
proof -
  have a: "make_filename studio_env studio (now studio_env) []
      = ''./captures/2024-01-01_00.00.00.jpeg''"
    and b: "make_filename studio_env studio (now studio_env) ''cropped''
      = ''./captures/2024-01-01_00.00.00_cropped.jpeg''"
    by (simp_all add: make_filename_def expanduser_def studio_def studio_env_def)
  from end_to_end_capture [of studio_env]
  have "Photographer_process studio_env (Shoot pi_camera) ready
       = Inr (ready\<lparr> written :=
                       [(make_filename studio_env studio (now studio_env) [], Still still),
                        (make_filename studio_env studio (now studio_env) ''cropped'',
                         Crop still (25.625, 77 / 3, 153.75, 154))],
                     crops := [Crop still (25.625, 77 / 3, 153.75, 154)] \<rparr>)"
    by blast
  then show ?thesis by (simp only: a b)
qed

text \<open>
  C4 as stated gives the corners \<open>(25.6, 25.6, 153.75, 153.75)\<close>. The region is cut at
  \<open>(25.625, 77 / 3, 153.75, 154)\<close>: the upper and the lower corner are not those of
  the specification, by more than any rounding to the digits shown.
\<close>

theorem end_to_end_corners_counterexample:
  "map corners_of (crops (state_of (Photographer_process studio_env (Shoot pi_camera) ready)))
     = [Some (25.625, 77 / 3, 153.75, 154)]
   \<and> (25.625, 77 / 3, 153.75, 154) \<noteq> (25.6, 25.6, 153.75, 153.75 :: real)
   \<and> \<bar>77 / 3 - 25.6\<bar> > (0.05 :: real)
   \<and> \<bar>154 - 153.75\<bar> = (0.25 :: real)"
proof -
  have "map corners_of
      (crops (state_of (Photographer_process studio_env (Shoot pi_camera) ready)))
     = [Some (25.625, 77 / 3, 153.75, 154)]"
    unfolding shoot_ready by simp
  then show ?thesis by simp
qed




section \<open>Animator theorem\<close>

lemma lerp_rising:
  fixes a b t u :: real
  assumes "t \<le> u" and "a \<le> b"
  shows "a * (1 - t) + b * t \<le> a * (1 - u) + b * u"
proof -
  from assms have "(b - a) * t \<le> (b - a) * u"
    by (simp add: mult_left_mono)
  then show ?thesis by (simp add: algebra_simps)
qed

lemma lerp_falling:
  fixes a b t u :: real
  assumes "t \<le> u" and "b \<le> a"
  shows "a * (1 - u) + b * u \<le> a * (1 - t) + b * t"
proof -
  from assms have "(a - b) * t \<le> (a - b) * u"
    by (simp add: mult_left_mono)
  then show ?thesis by (simp add: algebra_simps)
qed

text \<open>
  C6. For the blend of the specification: at score 0 it is the joy colour and at score 1
  the sad colour; each channel is \<open>joy * (1 - score) + sad * score\<close>; and each channel
  is monotonic in the score, rising where the sad colour has the larger channel and
  falling where the joy colour has. In \<open>Animator.process\<close>, whatever the blend function
  is, a score of zero or less turns the LEDs off; a positive score shows the blend of
  \<open>JOY_COLOR\<close> and \<open>SAD_COLOR\<close> at that score.
\<close>

theorem blend_endpoints_and_off:
  "blend joy sad 0 = joy
   \<and> blend joy sad 1 = sad
   \<and> red (blend joy sad t) = red joy * (1 - t) + red sad * t
   \<and> green (blend joy sad t) = green joy * (1 - t) + green sad * t
   \<and> blue (blend joy sad t) = blue joy * (1 - t) + blue sad * t
   \<and> (t \<le> u \<longrightarrow>
        (red joy \<le> red sad \<longrightarrow> red (blend joy sad t) \<le> red (blend joy sad u))
      \<and> (red sad \<le> red joy \<longrightarrow> red (blend joy sad u) \<le> red (blend joy sad t))
      \<and> (green joy \<le> green sad \<longrightarrow> green (blend joy sad t) \<le> green (blend joy sad u))
      \<and> (green sad \<le> green joy \<longrightarrow> green (blend joy sad u) \<le> green (blend joy sad t))
      \<and> (blue joy \<le> blue sad \<longrightarrow> blue (blend joy sad t) \<le> blue (blend joy sad u))
      \<and> (blue sad \<le> blue joy \<longrightarrow> blue (blend joy sad u) \<le> blue (blend joy sad t)))
   \<and> (score \<le> 0 \<longrightarrow> Animator_process blend_of score device = Inr Rgb_off)
   \<and> (0 < score \<longrightarrow>
        Animator_process blend score device = Inr (Rgb_on (blend JOY_COLOR SAD_COLOR score)))"
proof -
  obtain jr jg jb where j: "joy = (jr, jg, jb)"
    by (cases joy) auto
  obtain sr sg sb where s: "sad = (sr, sg, sb)"
    by (cases sad) auto
  have ends: "blend joy sad 0 = joy \<and> blend joy sad 1 = sad"
    by (simp add: j s)
  have linear: "red (blend joy sad t) = red joy * (1 - t) + red sad * t
      \<and> green (blend joy sad t) = green joy * (1 - t) + green sad * t
      \<and> blue (blend joy sad t) = blue joy * (1 - t) + blue sad * t"
    by (simp add: j s)
  have mono: "(red joy \<le> red sad \<longrightarrow> red (blend joy sad t) \<le> red (blend joy sad u))
      \<and> (red sad \<le> red joy \<longrightarrow> red (blend joy sad u) \<le> red (blend joy sad t))
      \<and> (green joy \<le> green sad \<longrightarrow> green (blend joy sad t) \<le> green (blend joy sad u))
      \<and> (green sad \<le> green joy \<longrightarrow> green (blend joy sad u) \<le> green (blend joy sad t))
      \<and> (blue joy \<le> blue sad \<longrightarrow> blue (blend joy sad t) \<le> blue (blend joy sad u))
      \<and> (blue sad \<le> blue joy \<longrightarrow> blue (blend joy sad u) \<le> blue (blend joy sad t))"
    if "t \<le> u"
    using that by (simp add: j s lerp_rising lerp_falling)
  have off: "Animator_process blend_of score device = Inr Rgb_off" if "score \<le> 0"
    using that by (simp add: Animator_process_def)
  have on: "Animator_process blend score device = Inr (Rgb_on (blend JOY_COLOR SAD_COLOR score))"
    if "0 < score"
    using that by (simp add: Animator_process_def)
  from ends linear mono off on show ?thesis by blast
qed

text \<open>
  Between the scores 1/4 and 3/4 the red channel of the two colours of the source falls
  and the blue one rises; the score -1 turns the LEDs off and the score 1/2 shows the
  colour half way.
\<close>

theorem blend_witness:
  "(1 / 4 :: real) \<le> 3 / 4
   \<and> red SAD_COLOR \<le> red JOY_COLOR
   \<and> red (blend JOY_COLOR SAD_COLOR (3 / 4)) \<le> red (blend JOY_COLOR SAD_COLOR (1 / 4))
   \<and> blue JOY_COLOR \<le> blue SAD_COLOR
   \<and> blue (blend JOY_COLOR SAD_COLOR (1 / 4)) \<le> blue (blend JOY_COLOR SAD_COLOR (3 / 4))
   \<and> (- 1 :: real) \<le> 0
   \<and> Animator_process (\<lambda>a b score. a) (- 1) (Rgb_on JOY_COLOR) = Inr Rgb_off
   \<and> (0 :: real) < 1 / 2
   \<and> Animator_process blend (1 / 2) Rgb_off = Inr (Rgb_on (255 / 2, 35, 32))"
proof -
  have le: "(1 / 4 :: real) \<le> 3 / 4" and neg: "(- 1 :: real) \<le> 0" and pos: "(0 :: real) < 1 / 2"
    by simp_all
  have r: "red SAD_COLOR \<le> red JOY_COLOR" and b: "blue JOY_COLOR \<le> blue SAD_COLOR"
    by (simp_all add: JOY_COLOR_def SAD_COLOR_def)
  have half: "blend JOY_COLOR SAD_COLOR (1 / 2) = (255 / 2, 35, 32)"
    by (simp add: JOY_COLOR_def SAD_COLOR_def)
  from blend_endpoints_and_off [of JOY_COLOR SAD_COLOR "1 / 4" "3 / 4" "- 1"
      "\<lambda>a b score. a" "Rgb_on JOY_COLOR"] le r b neg
  have "red (blend JOY_COLOR SAD_COLOR (3 / 4)) \<le> red (blend JOY_COLOR SAD_COLOR (1 / 4))
      \<and> blue (blend JOY_COLOR SAD_COLOR (1 / 4)) \<le> blue (blend JOY_COLOR SAD_COLOR (3 / 4))
      \<and> Animator_process (\<lambda>a b score. a) (- 1) (Rgb_on JOY_COLOR) = Inr Rgb_off"
    by blast
  moreover
  from blend_endpoints_and_off [of JOY_COLOR SAD_COLOR "1 / 4" "3 / 4" "1 / 2" blend Rgb_off] pos
  have "Animator_process blend (1 / 2) Rgb_off = Inr (Rgb_on (blend JOY_COLOR SAD_COLOR (1 / 2)))"
    by blast
  ultimately show ?thesis using le r b neg pos by (simp add: half)
qed

end
